theory Spec2Isabelle
  imports Complex_Main "HOL-Library.Finite_Map" "HOL-Library.Product_Lexorder"
begin

section \<open>Dashboard widget layout: data model\<close>

text \<open>
  A placement is the object \<^verbatim>\<open>{ x, y, w, h }\<close> stored per widget: column offset, row
  offset, width in columns and height in rows.  The fields are called \<open>px\<close>, \<open>py\<close>,
  \<open>pw\<close>, \<open>ph\<close> here, so that \<open>x\<close>, \<open>y\<close>, \<open>w\<close>, \<open>h\<close> stay free for the loop variables
  and parameters of the source.
\<close>

record placement =
  px :: int
  py :: int
  pw :: int
  ph :: int

text \<open>
  Modelled from the spec: the type \<^verbatim>\<open>WidgetLayoutConfig\<close> is declared in
  \<^verbatim>\<open>DashboardCustomizeModal\<close>, which is not among the sources.  The spec's data model
  makes a layout a finite mapping from widget identifier to placement, each identifier
  occurring at most once; that is a finite map.  The key type \<^verbatim>\<open>WidgetKey\<close> is left
  polymorphic.
\<close>

type_synonym 'k WidgetLayoutConfig = "('k, placement) fmap"

text \<open>
  The occupancy grid \<^verbatim>\<open>grid: boolean[][]\<close> is a sparse array of rows; \<^verbatim>\<open>grid[r]?.[c]\<close>
  is truthy exactly for the cells that have been set.  It is modelled by the set of
  occupied cells, row index first.
\<close>

type_synonym grid = "(int \<times> int) set"

definition GRID_COLS :: int where
  "GRID_COLS = 12"

section \<open>compactLayoutsUtil\<close>

definition canPlace :: "grid \<Rightarrow> int \<Rightarrow> int \<Rightarrow> int \<Rightarrow> int \<Rightarrow> bool" where
  "canPlace grid x y w h =
     (if x < 0 \<or> x + w > GRID_COLS then False
      else (\<forall>dy \<in> {0..<h}. \<forall>dx \<in> {0..<w}. (y + dy, x + dx) \<notin> grid))"

definition occupy :: "grid \<Rightarrow> int \<Rightarrow> int \<Rightarrow> int \<Rightarrow> int \<Rightarrow> grid" where
  "occupy grid x y w h = grid \<union> (\<Union>dy \<in> {0..<h}. \<Union>dx \<in> {0..<w}. {(y + dy, x + dx)})"

text \<open>
  The two nested search loops, \<^verbatim>\<open>for (y = 0; y < 100; y++)\<close> over
  \<^verbatim>\<open>for (x = 0; x <= COLS - w; x++)\<close>, stop at the first position that passes the test
  (the \<^verbatim>\<open>placed\<close> flag of \<^verbatim>\<open>compactLayoutsUtil\<close>, the \<^verbatim>\<open>return\<close> of
  \<^verbatim>\<open>findNextGridPosition\<close>).  \<open>xmax\<close> is the last column tried, \<open>ok x y\<close> the test.
\<close>

function scanCols :: "(int \<Rightarrow> bool) \<Rightarrow> int \<Rightarrow> int \<Rightarrow> int option" where
  "scanCols ok xmax x =
     (if x \<le> xmax then (if ok x then Some x else scanCols ok xmax (x + 1)) else None)"
  by pat_completeness auto
termination
  by (relation "measure (\<lambda>(ok, xmax, x). nat (xmax + 1 - x))") auto

function scanRows :: "(int \<Rightarrow> int \<Rightarrow> bool) \<Rightarrow> int \<Rightarrow> int \<Rightarrow> (int \<times> int) option" where
  "scanRows ok xmax y =
     (if y < 100 then
        (case scanCols (\<lambda>x. ok x y) xmax 0 of
           Some x \<Rightarrow> Some (x, y)
         | None \<Rightarrow> scanRows ok xmax (y + 1))
      else None)"
  by pat_completeness auto
termination
  by (relation "measure (\<lambda>(ok, xmax, y). nat (100 - y))") auto

declare scanCols.simps [simp del] scanRows.simps [simp del]

text \<open>
  \<^verbatim>\<open>visibleKeys.filter(key => layouts[key]).map(key => ({ key, ...layouts[key] }))
     .sort((a, b) => a.y - b.y || a.x - b.x)\<close>:
  an item is the key paired with its placement; the sort is stable and its comparator is
  the lexicographic order on \<open>(y, x)\<close>.
\<close>

definition layoutItems :: "'k WidgetLayoutConfig \<Rightarrow> 'k list \<Rightarrow> ('k \<times> placement) list" where
  "layoutItems layouts visibleKeys =
     sort_key (\<lambda>item. (py (snd item), px (snd item)))
       (map (\<lambda>key. (key, the (fmlookup layouts key)))
         (filter (\<lambda>key. fmlookup layouts key \<noteq> None) visibleKeys))"

text \<open>
  The body of \<^verbatim>\<open>items.forEach\<close>, on the pair of the two mutable locals \<^verbatim>\<open>compacted\<close>
  and \<^verbatim>\<open>grid\<close>.  \<^verbatim>\<open>Object.keys(compacted).length\<close> is the number of keys of the map.
\<close>

definition place ::
  "'k WidgetLayoutConfig \<times> grid \<Rightarrow> 'k \<times> placement \<Rightarrow> 'k WidgetLayoutConfig \<times> grid" where
  "place st item =
     (case st of (compacted, grid) \<Rightarrow>
      case item of (key, it) \<Rightarrow>
        (case scanRows (\<lambda>x y. canPlace grid x y (pw it) (ph it)) (GRID_COLS - pw it) 0 of
           Some (x, y) \<Rightarrow>
             (fmupd key \<lparr>px = x, py = y, pw = pw it, ph = ph it\<rparr> compacted,
              occupy grid x y (pw it) (ph it))
         | None \<Rightarrow>
             (let fallbackY = int (fcard (fmdom compacted)) * 2 in
              (fmupd key \<lparr>px = 0, py = fallbackY, pw = pw it, ph = ph it\<rparr> compacted,
               occupy grid 0 fallbackY (pw it) (ph it)))))"

definition compactLayoutsUtil :: "'k WidgetLayoutConfig \<Rightarrow> 'k list \<Rightarrow> 'k WidgetLayoutConfig" where
  "compactLayoutsUtil layouts visibleKeys =
     fst (foldl place (fmempty, {}) (layoutItems layouts visibleKeys))"

section \<open>findNextGridPosition\<close>

definition COLS :: int where
  "COLS = 12"

text \<open>
  The cells one existing entry marks: its rows, and its columns cut off at \<open>COLS\<close>.
  Every value of a layout is a placement, so the guard \<^verbatim>\<open>if (!layout) return\<close> never
  fires and has no counterpart here.
\<close>

definition markLayout :: "placement \<Rightarrow> grid" where
  "markLayout layout =
     (\<Union>row \<in> {py layout ..< py layout + ph layout}.
      \<Union>col \<in> {px layout ..< min (px layout + pw layout) COLS}. {(row, col)})"

definition findNextGridPosition :: "'k WidgetLayoutConfig \<Rightarrow> int \<Rightarrow> int \<Rightarrow> int \<times> int" where
  "findNextGridPosition existingLayouts widgetWidth widgetHeight =
     (let grid = (\<Union>layout \<in> fmran' existingLayouts. markLayout layout) in
      case scanRows
             (\<lambda>x y. \<forall>dy \<in> {0..<widgetHeight}. \<forall>dx \<in> {0..<widgetWidth}. (y + dy, x + dx) \<notin> grid)
             (COLS - widgetWidth) 0 of
        Some (x, y) \<Rightarrow> (x, y)
      | None \<Rightarrow> (0, int (fcard (fmdom existingLayouts)) * 2))"

section \<open>parseWidgetLayouts\<close>

text \<open>
  The stored \<^verbatim>\<open>layout_view\<close> is a JSON column: null, a boolean, a number, a string, an
  array or an object.  An object is kept as its list of members.
\<close>

datatype json =
    JNull
  | JBool bool
  | JNumber real
  | JString string
  | JArray "json list"
  | JObject "(string \<times> json) list"

text \<open>
  The row \<^verbatim>\<open>dashboardPrefs\<close> of the preferences query, of which the loader reads the
  field \<^verbatim>\<open>layout_view\<close> only.  The row itself may be missing (\<^verbatim>\<open>null\<close> or
  \<^verbatim>\<open>undefined\<close>), which \<^verbatim>\<open>dashboardPrefs?.layout_view\<close> turns into \<^verbatim>\<open>undefined\<close>.
\<close>

record dashboard_preferences =
  layout_view :: json

text \<open>The exception \<^verbatim>\<open>JSON.parse\<close> throws on text that is not JSON.\<close>

datatype exn = SyntaxError

text \<open>
  JavaScript's \<^verbatim>\<open>!v\<close> and \<^verbatim>\<open>typeof v\<close> on JSON values, and the text of a value
  whose \<^verbatim>\<open>typeof\<close> is \<^verbatim>\<open>"string"\<close>.
\<close>

definition falsy :: "json \<Rightarrow> bool" where
  "falsy v = (case v of
       JNull \<Rightarrow> True
     | JBool b \<Rightarrow> \<not> b
     | JNumber n \<Rightarrow> n = 0
     | JString s \<Rightarrow> s = []
     | JArray _ \<Rightarrow> False
     | JObject _ \<Rightarrow> False)"

definition typeof :: "json \<Rightarrow> string" where
  "typeof v = (case v of
       JNull \<Rightarrow> ''object''
     | JBool _ \<Rightarrow> ''boolean''
     | JNumber _ \<Rightarrow> ''number''
     | JString _ \<Rightarrow> ''string''
     | JArray _ \<Rightarrow> ''object''
     | JObject _ \<Rightarrow> ''object'')"

fun stringValue :: "json \<Rightarrow> string" where
  "stringValue (JString s) = s"
| "stringValue _ = []"

text \<open>
  \<^verbatim>\<open>JSON.parse\<close> belongs to the JavaScript runtime and is a parameter: it returns the
  parsed value or throws.  The \<^verbatim>\<open>try\<close>/\<^verbatim>\<open>catch\<close> around the call turns the exception
  into the fall-through to \<^verbatim>\<open>return {}\<close>.  The result is the value returned, or the
  exception that leaves the function.
\<close>

definition parseWidgetLayouts ::
  "(string \<Rightarrow> exn + json) \<Rightarrow> dashboard_preferences option \<Rightarrow> exn + json" where
  "parseWidgetLayouts JSON_parse dashboardPrefs =
     (case dashboardPrefs of
        None \<Rightarrow> Inr (JObject [])
      | Some prefs \<Rightarrow>
          if falsy (layout_view prefs) then Inr (JObject [])
          else if typeof (layout_view prefs) = ''object'' then Inr (layout_view prefs)
          else if typeof (layout_view prefs) = ''string'' then
            (case JSON_parse (stringValue (layout_view prefs)) of
               Inr parsed \<Rightarrow>
                 if typeof parsed = ''object'' \<and> parsed \<noteq> JNull then Inr parsed
                 else Inr (JObject [])
             | Inl e \<Rightarrow> Inr (JObject []))
          else Inr (JObject []))"

section \<open>Footprints and the notions the properties are stated with\<close>

text \<open>
  The cells of a \<open>w\<close>-by-\<open>h\<close> rectangle whose top left cell is column \<open>x\<close>, row \<open>y\<close>, and
  the footprint of a placement.  A rectangle of width or height 0 or less has no cell.
\<close>

definition rect :: "int \<Rightarrow> int \<Rightarrow> int \<Rightarrow> int \<Rightarrow> grid" where
  "rect x y w h = {y ..< y + h} \<times> {x ..< x + w}"

definition footprint :: "placement \<Rightarrow> grid" where
  "footprint p = rect (px p) (py p) (pw p) (ph p)"

text \<open>
  A position \<open>(x, y)\<close> fits a \<open>w\<close>-by-\<open>h\<close> widget against the occupied cells \<open>G\<close>: it is
  a grid position, the footprint lies within the 12 columns, and no cell of it is
  occupied.
\<close>

definition fits :: "grid \<Rightarrow> int \<Rightarrow> int \<Rightarrow> int \<Rightarrow> int \<Rightarrow> bool" where
  "fits G x y w h = (0 \<le> x \<and> x + w \<le> 12 \<and> 0 \<le> y \<and> rect x y w h \<inter> G = {})"

text \<open>
  The search of the loop body of \<open>compactLayoutsUtil\<close> on its own, and the placement the
  loop body writes for an item.
\<close>

definition compactScan :: "grid \<Rightarrow> int \<Rightarrow> int \<Rightarrow> (int \<times> int) option" where
  "compactScan g w h = scanRows (\<lambda>x y. canPlace g x y w h) (GRID_COLS - w) 0"

definition written :: "'k WidgetLayoutConfig \<times> grid \<Rightarrow> 'k \<times> placement \<Rightarrow> placement" where
  "written st item = the (fmlookup (fst (place st item)) (fst item))"

text \<open>
  The placements written for a sequence of items, in processing order, starting from
  the loop state \<open>st\<close>.
\<close>

primrec placedSeq :: "'k WidgetLayoutConfig \<times> grid \<Rightarrow> ('k \<times> placement) list \<Rightarrow> placement list" where
  "placedSeq st [] = []"
| "placedSeq st (item # items) = written st item # placedSeq (place st item) items"

text \<open>
  No item of the sequence takes the fallback branch: the search finds a position for
  each, in the state the loop has reached.
\<close>

primrec noFallback :: "'k WidgetLayoutConfig \<times> grid \<Rightarrow> ('k \<times> placement) list \<Rightarrow> bool" where
  "noFallback st [] = True"
| "noFallback st (item # items) =
     (compactScan (snd st) (pw (snd item)) (ph (snd item)) \<noteq> None \<and> noFallback (place st item) items)"

text \<open>The cells covered by a sequence of placements.\<close>

definition covered :: "placement list \<Rightarrow> grid" where
  "covered ps = (\<Union>p \<in> set ps. footprint p)"

text \<open>
  Two items are the same widget for the placement loop when they agree on the key, the
  width and the height: the loop body reads nothing else of an item.
\<close>

definition sameWidget :: "'k \<times> placement \<Rightarrow> 'k \<times> placement \<Rightarrow> bool" where
  "sameWidget i j = (fst i = fst j \<and> pw (snd i) = pw (snd j) \<and> ph (snd i) = ph (snd j))"

text \<open>
  The occupancy a layout stands for: the cells covered by the footprints of its entries.
\<close>

definition occupancy :: "'k WidgetLayoutConfig \<Rightarrow> grid" where
  "occupancy L = (\<Union>p \<in> fmran' L. footprint p)"

text \<open>
  The loader as the spec words it.  An object is a non-null value whose \<^verbatim>\<open>typeof\<close> is
  \<^verbatim>\<open>"object"\<close>, so an array counts as one.  A stored object is the layout; a stored
  string is parsed, and the parsed value is the layout if parsing succeeds with an
  object; everything else is the empty layout.
\<close>

definition isObject :: "json \<Rightarrow> bool" where
  "isObject v = (case v of JArray _ \<Rightarrow> True | JObject _ \<Rightarrow> True | _ \<Rightarrow> False)"

definition loadedLayout :: "(string \<Rightarrow> exn + json) \<Rightarrow> dashboard_preferences option \<Rightarrow> json" where
  "loadedLayout JSON_parse dashboardPrefs =
     (case dashboardPrefs of
        None \<Rightarrow> JObject []
      | Some prefs \<Rightarrow>
          if isObject (layout_view prefs) then layout_view prefs
          else
            (case layout_view prefs of
               JString s \<Rightarrow>
                 (case JSON_parse s of
                    Inr parsed \<Rightarrow> if isObject parsed then parsed else JObject []
                  | Inl e \<Rightarrow> JObject [])
             | _ \<Rightarrow> JObject []))"

text \<open>The data-model precondition on one input placement.\<close>

definition validPlacement :: "placement \<Rightarrow> bool" where
  "validPlacement q = (0 \<le> px q \<and> 0 \<le> py q \<and> 1 \<le> pw q \<and> 1 \<le> ph q \<and> px q + pw q \<le> 12)"

text \<open>
  The invariant of the placement loop while every widget is placed by the search: each
  placement written so far lies inside the occupied cells, and the placements of
  different keys do not intersect.
\<close>

definition packed :: "'k WidgetLayoutConfig \<times> grid \<Rightarrow> bool" where
  "packed st =
     ((\<forall>k p. fmlookup (fst st) k = Some p \<longrightarrow> footprint p \<subseteq> snd st) \<and>
      (\<forall>k1 k2 p1 p2. k1 \<noteq> k2 \<and> fmlookup (fst st) k1 = Some p1 \<and> fmlookup (fst st) k2 = Some p2
          \<longrightarrow> footprint p1 \<inter> footprint p2 = {}))"

text \<open>The layout of the worked example of the spec.\<close>

definition exampleLayout :: "string WidgetLayoutConfig" where
  "exampleLayout =
     fmupd ''A'' \<lparr>px = 0, py = 0, pw = 3, ph = 2\<rparr>
       (fmupd ''B'' \<lparr>px = 5, py = 3, pw = 3, ph = 2\<rparr> fmempty)"

text \<open>
  A layout within the data model whose first widget fills all 100 rows of the search.
\<close>

definition overflowLayout :: "string WidgetLayoutConfig" where
  "overflowLayout =
     fmupd ''A'' \<lparr>px = 0, py = 0, pw = 12, ph = 100\<rparr>
       (fmupd ''B'' \<lparr>px = 0, py = 100, pw = 1, ph = 1\<rparr> fmempty)"

text \<open>
  A layout within the data model that compaction reorders: Q is processed last and
  lands in row 0, before E in reading order.
\<close>

definition reorderLayout :: "string WidgetLayoutConfig" where
  "reorderLayout =
     fmupd ''A'' \<lparr>px = 0, py = 0, pw = 6, ph = 1\<rparr>
       (fmupd ''E'' \<lparr>px = 0, py = 1, pw = 8, ph = 1\<rparr>
         (fmupd ''Q'' \<lparr>px = 0, py = 2, pw = 4, ph = 2\<rparr> fmempty))"

text \<open>
  A layout whose single widget fills the first two rows, and one whose single widget
  fills all 100 rows of the search.
\<close>

definition fullRowLayout :: "string WidgetLayoutConfig" where
  "fullRowLayout = fmupd ''A'' \<lparr>px = 0, py = 0, pw = 12, ph = 2\<rparr> fmempty"

definition fullGridLayout :: "string WidgetLayoutConfig" where
  "fullGridLayout = fmupd ''A'' \<lparr>px = 0, py = 0, pw = 12, ph = 100\<rparr> fmempty"

text \<open>
  A stand-in for \<^verbatim>\<open>JSON.parse\<close> on three inputs: it parses \<^verbatim>\<open>[1]\<close> and \<^verbatim>\<open>7\<close> and
  rejects every other text, the empty text among them.
\<close>

definition demoParse :: "string \<Rightarrow> exn + json" where
  "demoParse s =
     (if s = ''[1]'' then Inr (JArray [JNumber 1])
      else if s = ''7'' then Inr (JNumber 7)
      else Inl SyntaxError)"

section \<open>Rectangles, the occupancy grid and the search loops\<close>

lemma offsets_rect:
  "(\<Union>dy \<in> {0..<h}. \<Union>dx \<in> {0..<w}. {(y + dy, x + dx)}) = rect x y w h"
proof (rule set_eqI)
  fix c :: "int \<times> int"
  obtain r k where c: "c = (r, k)" by (cases c)
  have "(r, k) \<in> rect x y w h \<longleftrightarrow> (\<exists>dy\<in>{0..<h}. \<exists>dx\<in>{0..<w}. r = y + dy \<and> k = x + dx)"
  proof
    assume "(r, k) \<in> rect x y w h"
    then have "r - y \<in> {0..<h}" "k - x \<in> {0..<w}" "r = y + (r - y)" "k = x + (k - x)"
      by (auto simp: rect_def)
    then show "\<exists>dy\<in>{0..<h}. \<exists>dx\<in>{0..<w}. r = y + dy \<and> k = x + dx" by blast
  next
    assume "\<exists>dy\<in>{0..<h}. \<exists>dx\<in>{0..<w}. r = y + dy \<and> k = x + dx"
    then show "(r, k) \<in> rect x y w h" by (auto simp: rect_def)
  qed
  then show "c \<in> (\<Union>dy \<in> {0..<h}. \<Union>dx \<in> {0..<w}. {(y + dy, x + dx)}) \<longleftrightarrow> c \<in> rect x y w h"
    by (auto simp: c)
qed

lemma occupy_rect: "occupy g x y w h = g \<union> rect x y w h"
  by (simp add: occupy_def offsets_rect)

lemma cells_free_rect:
  "(\<forall>dy \<in> {0..<h}. \<forall>dx \<in> {0..<w}. (y + dy, x + dx) \<notin> g) \<longleftrightarrow> rect x y w h \<inter> g = {}"
proof -
  have "(\<forall>dy \<in> {0..<h}. \<forall>dx \<in> {0..<w}. (y + dy, x + dx) \<notin> g)
        \<longleftrightarrow> (\<Union>dy \<in> {0..<h}. \<Union>dx \<in> {0..<w}. {(y + dy, x + dx)}) \<inter> g = {}"
    by blast
  then show ?thesis by (simp add: offsets_rect)
qed

lemma canPlace_rect:
  "canPlace g x y w h \<longleftrightarrow> 0 \<le> x \<and> x + w \<le> 12 \<and> rect x y w h \<inter> g = {}"
  by (auto simp: canPlace_def GRID_COLS_def cells_free_rect)

lemma scanCols_None:
  "scanCols ok xmax x = None \<longleftrightarrow> (\<forall>x'. x \<le> x' \<and> x' \<le> xmax \<longrightarrow> \<not> ok x')"
proof (induction ok xmax x rule: scanCols.induct)
  case (1 ok xmax x)
  show ?case
  proof (cases "x \<le> xmax")
    case False
    then show ?thesis by (auto simp: scanCols.simps)
  next
    case True
    show ?thesis
    proof (cases "ok x")
      case True
      with \<open>x \<le> xmax\<close> show ?thesis by (auto simp: scanCols.simps)
    next
      case False
      have "(\<forall>x'. x \<le> x' \<and> x' \<le> xmax \<longrightarrow> \<not> ok x') \<longleftrightarrow> (\<forall>x'. x + 1 \<le> x' \<and> x' \<le> xmax \<longrightarrow> \<not> ok x')"
      proof
        assume a: "\<forall>x'. x + 1 \<le> x' \<and> x' \<le> xmax \<longrightarrow> \<not> ok x'"
        show "\<forall>x'. x \<le> x' \<and> x' \<le> xmax \<longrightarrow> \<not> ok x'"
        proof (intro allI impI)
          fix x' assume "x \<le> x' \<and> x' \<le> xmax"
          then have "x' = x \<or> (x + 1 \<le> x' \<and> x' \<le> xmax)" by arith
          with a False show "\<not> ok x'" by blast
        qed
      qed auto
      with 1 True False show ?thesis by (simp add: scanCols.simps[of ok xmax x])
    qed
  qed
qed

lemma scanCols_Some:
  "scanCols ok xmax x = Some r \<longleftrightarrow>
     x \<le> r \<and> r \<le> xmax \<and> ok r \<and> (\<forall>x'. x \<le> x' \<and> x' < r \<longrightarrow> \<not> ok x')"
proof (induction ok xmax x rule: scanCols.induct)
  case (1 ok xmax x)
  show ?case
  proof (cases "x \<le> xmax")
    case False
    then show ?thesis by (auto simp: scanCols.simps)
  next
    case True
    show ?thesis
    proof (cases "ok x")
      case True
      have "r = x" if "x \<le> r" "\<forall>x'. x \<le> x' \<and> x' < r \<longrightarrow> \<not> ok x'"
      proof (rule ccontr)
        assume "r \<noteq> x"
        with that(1) have "x \<le> x \<and> x < r" by simp
        with that(2) True show False by blast
      qed
      with True \<open>x \<le> xmax\<close> show ?thesis by (auto simp: scanCols.simps[of ok xmax x])
    next
      case False
      have "(x \<le> r \<and> (\<forall>x'. x \<le> x' \<and> x' < r \<longrightarrow> \<not> ok x')) \<longleftrightarrow>
            (x + 1 \<le> r \<and> (\<forall>x'. x + 1 \<le> x' \<and> x' < r \<longrightarrow> \<not> ok x'))" if "ok r"
      proof
        assume a: "x + 1 \<le> r \<and> (\<forall>x'. x + 1 \<le> x' \<and> x' < r \<longrightarrow> \<not> ok x')"
        have "\<forall>x'. x \<le> x' \<and> x' < r \<longrightarrow> \<not> ok x'"
        proof (intro allI impI)
          fix x' assume "x \<le> x' \<and> x' < r"
          then have "x' = x \<or> (x + 1 \<le> x' \<and> x' < r)" by arith
          with a False show "\<not> ok x'" by blast
        qed
        with a show "x \<le> r \<and> (\<forall>x'. x \<le> x' \<and> x' < r \<longrightarrow> \<not> ok x')" by simp
      next
        assume a: "x \<le> r \<and> (\<forall>x'. x \<le> x' \<and> x' < r \<longrightarrow> \<not> ok x')"
        from that False have "r \<noteq> x" by blast
        with a have "x + 1 \<le> r" by simp
        moreover from a have "\<forall>x'. x + 1 \<le> x' \<and> x' < r \<longrightarrow> \<not> ok x'" by simp
        ultimately show "x + 1 \<le> r \<and> (\<forall>x'. x + 1 \<le> x' \<and> x' < r \<longrightarrow> \<not> ok x')" by simp
      qed
      with 1 True False show ?thesis by (auto simp: scanCols.simps[of ok xmax x])
    qed
  qed
qed

lemma scanRows_None:
  "scanRows ok xmax y = None \<longleftrightarrow>
     (\<forall>y' x'. y \<le> y' \<and> y' < 100 \<and> 0 \<le> x' \<and> x' \<le> xmax \<longrightarrow> \<not> ok x' y')"
proof (induction ok xmax y rule: scanRows.induct)
  case (1 ok xmax y)
  show ?case
  proof (cases "y < 100")
    case False
    then show ?thesis by (auto simp: scanRows.simps)
  next
    case True
    show ?thesis
    proof (cases "scanCols (\<lambda>x. ok x y) xmax 0")
      case (Some x0)
      then have "0 \<le> x0" "x0 \<le> xmax" "ok x0 y" by (simp_all add: scanCols_Some)
      with True Some show ?thesis by (auto simp: scanRows.simps[of ok xmax y])
    next
      case None
      then have row: "\<forall>x'. 0 \<le> x' \<and> x' \<le> xmax \<longrightarrow> \<not> ok x' y" by (simp add: scanCols_None)
      have "(\<forall>y' x'. y \<le> y' \<and> y' < 100 \<and> 0 \<le> x' \<and> x' \<le> xmax \<longrightarrow> \<not> ok x' y') \<longleftrightarrow>
            (\<forall>y' x'. y + 1 \<le> y' \<and> y' < 100 \<and> 0 \<le> x' \<and> x' \<le> xmax \<longrightarrow> \<not> ok x' y')"
      proof
        assume a: "\<forall>y' x'. y + 1 \<le> y' \<and> y' < 100 \<and> 0 \<le> x' \<and> x' \<le> xmax \<longrightarrow> \<not> ok x' y'"
        show "\<forall>y' x'. y \<le> y' \<and> y' < 100 \<and> 0 \<le> x' \<and> x' \<le> xmax \<longrightarrow> \<not> ok x' y'"
        proof (intro allI impI)
          fix y' x' assume b: "y \<le> y' \<and> y' < 100 \<and> 0 \<le> x' \<and> x' \<le> xmax"
          then have "y' = y \<or> y + 1 \<le> y'" by arith
          with a b row show "\<not> ok x' y'" by blast
        qed
      qed auto
      with 1 True None show ?thesis by (simp add: scanRows.simps[of ok xmax y])
    qed
  qed
qed

lemma scanRows_Some:
  "scanRows ok xmax y = Some (x, r) \<longleftrightarrow>
     y \<le> r \<and> r < 100 \<and> 0 \<le> x \<and> x \<le> xmax \<and> ok x r \<and>
     (\<forall>x'. 0 \<le> x' \<and> x' < x \<longrightarrow> \<not> ok x' r) \<and>
     (\<forall>y' x'. y \<le> y' \<and> y' < r \<and> 0 \<le> x' \<and> x' \<le> xmax \<longrightarrow> \<not> ok x' y')"
  (is "?L y \<longleftrightarrow> ?R y")
proof (induction ok xmax y rule: scanRows.induct)
  case (1 ok xmax y)
  show ?case
  proof (cases "y < 100")
    case False
    then show ?thesis by (auto simp: scanRows.simps)
  next
    case True
    show ?thesis
    proof (cases "scanCols (\<lambda>x. ok x y) xmax 0")
      case (Some x0)
      then have x0: "0 \<le> x0" "x0 \<le> xmax" "ok x0 y" "\<forall>x'. 0 \<le> x' \<and> x' < x0 \<longrightarrow> \<not> ok x' y"
        by (simp_all add: scanCols_Some)
      have L: "scanRows ok xmax y = Some (x, r) \<longleftrightarrow> x = x0 \<and> r = y"
        using True Some by (auto simp: scanRows.simps[of ok xmax y])
      show ?thesis unfolding L
      proof
        assume "x = x0 \<and> r = y"
        with x0 True show "y \<le> r \<and> r < 100 \<and> 0 \<le> x \<and> x \<le> xmax \<and> ok x r \<and>
          (\<forall>x'. 0 \<le> x' \<and> x' < x \<longrightarrow> \<not> ok x' r) \<and>
          (\<forall>y' x'. y \<le> y' \<and> y' < r \<and> 0 \<le> x' \<and> x' \<le> xmax \<longrightarrow> \<not> ok x' y')"
          by auto
      next
        assume R: "y \<le> r \<and> r < 100 \<and> 0 \<le> x \<and> x \<le> xmax \<and> ok x r \<and>
          (\<forall>x'. 0 \<le> x' \<and> x' < x \<longrightarrow> \<not> ok x' r) \<and>
          (\<forall>y' x'. y \<le> y' \<and> y' < r \<and> 0 \<le> x' \<and> x' \<le> xmax \<longrightarrow> \<not> ok x' y')"
        have "r = y"
        proof (rule ccontr)
          assume "r \<noteq> y"
          with R have "y \<le> y \<and> y < r \<and> 0 \<le> x0 \<and> x0 \<le> xmax" using x0 by simp
          with R x0 show False by blast
        qed
        moreover have "x = x0"
        proof (rule ccontr)
          assume "x \<noteq> x0"
          then consider "x < x0" | "x0 < x" by linarith
          then show False
          proof cases
            case 1
            with R x0 \<open>r = y\<close> show False by blast
          next
            case 2
            with R x0 \<open>r = y\<close> show False by blast
          qed
        qed
        ultimately show "x = x0 \<and> r = y" by simp
      qed
    next
      case None
      then have row: "\<forall>x'. 0 \<le> x' \<and> x' \<le> xmax \<longrightarrow> \<not> ok x' y" by (simp add: scanCols_None)
      have L: "scanRows ok xmax y = Some (x, r) \<longleftrightarrow> scanRows ok xmax (y + 1) = Some (x, r)"
        using True None by (simp add: scanRows.simps[of ok xmax y])
      have IH: "scanRows ok xmax (y + 1) = Some (x, r) \<longleftrightarrow>
          y + 1 \<le> r \<and> r < 100 \<and> 0 \<le> x \<and> x \<le> xmax \<and> ok x r \<and>
          (\<forall>x'. 0 \<le> x' \<and> x' < x \<longrightarrow> \<not> ok x' r) \<and>
          (\<forall>y' x'. y + 1 \<le> y' \<and> y' < r \<and> 0 \<le> x' \<and> x' \<le> xmax \<longrightarrow> \<not> ok x' y')"
        using 1 True None by simp
      show ?thesis unfolding L IH
      proof
        assume a: "y + 1 \<le> r \<and> r < 100 \<and> 0 \<le> x \<and> x \<le> xmax \<and> ok x r \<and>
          (\<forall>x'. 0 \<le> x' \<and> x' < x \<longrightarrow> \<not> ok x' r) \<and>
          (\<forall>y' x'. y + 1 \<le> y' \<and> y' < r \<and> 0 \<le> x' \<and> x' \<le> xmax \<longrightarrow> \<not> ok x' y')"
        have "\<forall>y' x'. y \<le> y' \<and> y' < r \<and> 0 \<le> x' \<and> x' \<le> xmax \<longrightarrow> \<not> ok x' y'"
        proof (intro allI impI)
          fix y' x' assume b: "y \<le> y' \<and> y' < r \<and> 0 \<le> x' \<and> x' \<le> xmax"
          then have "y' = y \<or> y + 1 \<le> y'" by arith
          with a b row show "\<not> ok x' y'" by blast
        qed
        with a show "y \<le> r \<and> r < 100 \<and> 0 \<le> x \<and> x \<le> xmax \<and> ok x r \<and>
          (\<forall>x'. 0 \<le> x' \<and> x' < x \<longrightarrow> \<not> ok x' r) \<and>
          (\<forall>y' x'. y \<le> y' \<and> y' < r \<and> 0 \<le> x' \<and> x' \<le> xmax \<longrightarrow> \<not> ok x' y')"
          by simp
      next
        assume a: "y \<le> r \<and> r < 100 \<and> 0 \<le> x \<and> x \<le> xmax \<and> ok x r \<and>
          (\<forall>x'. 0 \<le> x' \<and> x' < x \<longrightarrow> \<not> ok x' r) \<and>
          (\<forall>y' x'. y \<le> y' \<and> y' < r \<and> 0 \<le> x' \<and> x' \<le> xmax \<longrightarrow> \<not> ok x' y')"
        with row have "r \<noteq> y" by blast
        with a have "y + 1 \<le> r" by simp
        moreover from a have "\<forall>y' x'. y + 1 \<le> y' \<and> y' < r \<and> 0 \<le> x' \<and> x' \<le> xmax \<longrightarrow> \<not> ok x' y'"
          by simp
        ultimately show "y + 1 \<le> r \<and> r < 100 \<and> 0 \<le> x \<and> x \<le> xmax \<and> ok x r \<and>
          (\<forall>x'. 0 \<le> x' \<and> x' < x \<longrightarrow> \<not> ok x' r) \<and>
          (\<forall>y' x'. y + 1 \<le> y' \<and> y' < r \<and> 0 \<le> x' \<and> x' \<le> xmax \<longrightarrow> \<not> ok x' y')"
          using a by simp
      qed
    qed
  qed
qed

lemma scan_fits_Some:
  assumes ok: "\<And>x y. 0 \<le> x \<Longrightarrow> x + w \<le> 12 \<Longrightarrow> ok x y = (rect x y w h \<inter> g = {})"
  shows "scanRows ok (12 - w) 0 = Some (x, y) \<longleftrightarrow>
     fits g x y w h \<and> y \<le> 99 \<and> (\<forall>x' y'. fits g x' y' w h \<longrightarrow> y < y' \<or> (y = y' \<and> x \<le> x'))"
proof
  assume "scanRows ok (12 - w) 0 = Some (x, y)"
  then have s: "0 \<le> y" "y < 100" "0 \<le> x" "x \<le> 12 - w" "ok x y"
    "\<forall>x'. 0 \<le> x' \<and> x' < x \<longrightarrow> \<not> ok x' y"
    "\<forall>y' x'. 0 \<le> y' \<and> y' < y \<and> 0 \<le> x' \<and> x' \<le> 12 - w \<longrightarrow> \<not> ok x' y'"
    by (simp_all add: scanRows_Some)
  have f: "fits g x y w h" using s(1-5) ok[of x y] by (simp add: fits_def)
  have "y < y' \<or> (y = y' \<and> x \<le> x')" if "fits g x' y' w h" for x' y'
  proof (rule ccontr)
    assume n: "\<not> (y < y' \<or> (y = y' \<and> x \<le> x'))"
    from that have t: "0 \<le> x'" "x' + w \<le> 12" "0 \<le> y'" "ok x' y'"
      using ok[of x' y'] by (simp_all add: fits_def)
    from n consider "y' < y" | "y' = y" "x' < x" by linarith
    then show False
    proof cases
      case 1
      with t have "0 \<le> y' \<and> y' < y \<and> 0 \<le> x' \<and> x' \<le> 12 - w" by simp
      with s(7) t(4) show False by blast
    next
      case 2
      with s(6) t show False by blast
    qed
  qed
  with f s(2) show "fits g x y w h \<and> y \<le> 99 \<and> (\<forall>x' y'. fits g x' y' w h \<longrightarrow> y < y' \<or> (y = y' \<and> x \<le> x'))"
    by simp
next
  assume a: "fits g x y w h \<and> y \<le> 99 \<and> (\<forall>x' y'. fits g x' y' w h \<longrightarrow> y < y' \<or> (y = y' \<and> x \<le> x'))"
  then have b: "0 \<le> x" "x + w \<le> 12" "0 \<le> y" "rect x y w h \<inter> g = {}" "y \<le> 99"
    by (simp_all add: fits_def)
  have least: "\<And>x' y'. fits g x' y' w h \<Longrightarrow> y < y' \<or> (y = y' \<and> x \<le> x')" using a by blast
  have 1: "\<not> ok x' y" if "0 \<le> x' \<and> x' < x" for x'
  proof
    assume "ok x' y"
    with that b have "fits g x' y w h" using ok[of x' y] by (simp add: fits_def)
    from least[OF this] that show False by simp
  qed
  have 2: "\<not> ok x' y'" if "0 \<le> y' \<and> y' < y \<and> 0 \<le> x' \<and> x' \<le> 12 - w" for x' y'
  proof
    assume "ok x' y'"
    with that have "fits g x' y' w h" using ok[of x' y'] by (simp add: fits_def)
    from least[OF this] that show False by simp
  qed
  from b have "ok x y" using ok[of x y] by simp
  with b 1 2 show "scanRows ok (12 - w) 0 = Some (x, y)"
    by (simp add: scanRows_Some)
qed

lemma scan_fits_None:
  assumes ok: "\<And>x y. 0 \<le> x \<Longrightarrow> x + w \<le> 12 \<Longrightarrow> ok x y = (rect x y w h \<inter> g = {})"
  shows "scanRows ok (12 - w) 0 = None \<longleftrightarrow> \<not> (\<exists>x y. fits g x y w h \<and> y \<le> 99)"
proof
  assume n: "scanRows ok (12 - w) 0 = None"
  show "\<not> (\<exists>x y. fits g x y w h \<and> y \<le> 99)"
  proof
    assume "\<exists>x y. fits g x y w h \<and> y \<le> 99"
    then obtain x y where f: "fits g x y w h" "y \<le> 99" by blast
    then have "0 \<le> y \<and> y < 100 \<and> 0 \<le> x \<and> x \<le> 12 - w" "ok x y"
      using ok[of x y] by (simp_all add: fits_def)
    with n show False unfolding scanRows_None by blast
  qed
next
  assume n: "\<not> (\<exists>x y. fits g x y w h \<and> y \<le> 99)"
  have "\<not> ok x' y'" if "0 \<le> y' \<and> y' < 100 \<and> 0 \<le> x' \<and> x' \<le> 12 - w" for x' y'
  proof
    assume "ok x' y'"
    with that have "fits g x' y' w h \<and> y' \<le> 99" using ok[of x' y'] by (simp add: fits_def)
    with n show False by blast
  qed
  then show "scanRows ok (12 - w) 0 = None" by (simp add: scanRows_None)
qed

lemma compactScan_Some:
  "compactScan g w h = Some (x, y) \<longleftrightarrow>
     fits g x y w h \<and> y \<le> 99 \<and> (\<forall>x' y'. fits g x' y' w h \<longrightarrow> y < y' \<or> (y = y' \<and> x \<le> x'))"
  unfolding compactScan_def GRID_COLS_def
  by (rule scan_fits_Some) (simp add: canPlace_rect)

lemma compactScan_None:
  "compactScan g w h = None \<longleftrightarrow> \<not> (\<exists>x y. fits g x y w h \<and> y \<le> 99)"
  unfolding compactScan_def GRID_COLS_def
  by (rule scan_fits_None) (simp add: canPlace_rect)

lemma place_Some:
  assumes "compactScan g (pw it) (ph it) = Some (x, y)"
  shows "place (c, g) (k, it) =
    (fmupd k \<lparr>px = x, py = y, pw = pw it, ph = ph it\<rparr> c, g \<union> rect x y (pw it) (ph it))"
  using assms by (simp add: place_def compactScan_def occupy_rect)

lemma place_None:
  assumes "compactScan g (pw it) (ph it) = None"
  shows "place (c, g) (k, it) =
    (fmupd k \<lparr>px = 0, py = int (fcard (fmdom c)) * 2, pw = pw it, ph = ph it\<rparr> c,
     g \<union> rect 0 (int (fcard (fmdom c)) * 2) (pw it) (ph it))"
  using assms by (simp add: place_def compactScan_def occupy_rect Let_def)

lemma place_written:
  "place st item = (fmupd (fst item) (written st item) (fst st), snd st \<union> footprint (written st item))"
proof -
  obtain c g where st: "st = (c, g)" by (cases st)
  obtain k it where item: "item = (k, it)" by (cases item)
  show ?thesis
  proof (cases "compactScan g (pw it) (ph it)")
    case None
    then show ?thesis unfolding st item written_def
      by (simp add: place_None footprint_def)
  next
    case (Some xy)
    obtain x y where "xy = (x, y)" by (cases xy)
    with Some show ?thesis unfolding st item written_def
      by (simp add: place_Some footprint_def)
  qed
qed

lemma written_size [simp]:
  "pw (written st item) = pw (snd item)" "ph (written st item) = ph (snd item)"
proof -
  obtain c g where st: "st = (c, g)" by (cases st)
  obtain k it where item: "item = (k, it)" by (cases item)
  have "pw (written st item) = pw (snd item) \<and> ph (written st item) = ph (snd item)"
  proof (cases "compactScan g (pw it) (ph it)")
    case None
    then show ?thesis unfolding st item written_def by (simp add: place_None)
  next
    case (Some xy)
    obtain x y where "xy = (x, y)" by (cases xy)
    with Some show ?thesis unfolding st item written_def by (simp add: place_Some)
  qed
  then show "pw (written st item) = pw (snd item)" "ph (written st item) = ph (snd item)" by simp_all
qed

lemma written_Some:
  assumes "compactScan (snd st) (pw (snd item)) (ph (snd item)) = Some (x, y)"
  shows "written st item = \<lparr>px = x, py = y, pw = pw (snd item), ph = ph (snd item)\<rparr>"
proof -
  obtain c g where st: "st = (c, g)" by (cases st)
  obtain k it where item: "item = (k, it)" by (cases item)
  from assms show ?thesis unfolding st item written_def by (simp add: place_Some)
qed

lemma written_None:
  assumes "compactScan (snd st) (pw (snd item)) (ph (snd item)) = None"
  shows "written st item =
    \<lparr>px = 0, py = int (fcard (fmdom (fst st))) * 2, pw = pw (snd item), ph = ph (snd item)\<rparr>"
proof -
  obtain c g where st: "st = (c, g)" by (cases st)
  obtain k it where item: "item = (k, it)" by (cases item)
  from assms show ?thesis unfolding st item written_def by (simp add: place_None)
qed

lemma rect_disjoint:
  "rect x1 y1 w1 h1 \<inter> rect x2 y2 w2 h2 = {} \<longleftrightarrow>
     w1 \<le> 0 \<or> h1 \<le> 0 \<or> w2 \<le> 0 \<or> h2 \<le> 0 \<or>
     x1 + w1 \<le> x2 \<or> x2 + w2 \<le> x1 \<or> y1 + h1 \<le> y2 \<or> y2 + h2 \<le> y1"
proof -
  have "rect x1 y1 w1 h1 \<inter> rect x2 y2 w2 h2 =
        {max y1 y2 ..< min (y1 + h1) (y2 + h2)} \<times> {max x1 x2 ..< min (x1 + w1) (x2 + w2)}"
    by (auto simp: rect_def)
  then show ?thesis by (simp add: Sigma_empty_iff) linarith
qed

lemma fits_Un: "fits (g1 \<union> g2) x y w h \<longleftrightarrow> fits g1 x y w h \<and> fits g2 x y w h"
  by (auto simp: fits_def)

lemma fits_empty: "fits {} x y w h \<longleftrightarrow> 0 \<le> x \<and> x + w \<le> 12 \<and> 0 \<le> y"
  by (simp add: fits_def)

lemma fits_rect:
  "fits (rect x2 y2 w2 h2) x y w h \<longleftrightarrow>
     0 \<le> x \<and> x + w \<le> 12 \<and> 0 \<le> y \<and>
     (w \<le> 0 \<or> h \<le> 0 \<or> w2 \<le> 0 \<or> h2 \<le> 0 \<or>
      x + w \<le> x2 \<or> x2 + w2 \<le> x \<or> y + h \<le> y2 \<or> y2 + h2 \<le> y)"
  by (simp add: fits_def rect_disjoint)

lemma place_at:
  assumes "compactScan g w h = Some (x, y)" and "pw it = w" and "ph it = h"
  shows "place (c, g) (k, it) =
    (fmupd k \<lparr>px = x, py = y, pw = w, ph = h\<rparr> c, g \<union> rect x y w h)"
  using assms by (simp add: place_Some)

lemma example_items:
  "layoutItems exampleLayout [''A'', ''B''] =
     [(''A'', \<lparr>px = 0, py = 0, pw = 3, ph = 2\<rparr>), (''B'', \<lparr>px = 5, py = 3, pw = 3, ph = 2\<rparr>)]"
  by (simp add: layoutItems_def exampleLayout_def)

lemma example_scan_A: "compactScan {} 3 2 = Some (0, 0)"
  by (simp add: compactScan_Some fits_empty) arith

lemma example_scan_B: "compactScan (rect 0 0 3 2) 3 2 = Some (3, 0)"
  by (simp add: compactScan_Some fits_rect) arith

lemma fmran'_empty: "fmran' fmempty = {}"
  by (auto simp: fmlookup_ran'_iff)

lemma example_result:
  "compactLayoutsUtil exampleLayout [''A'', ''B''] =
     fmupd ''B'' \<lparr>px = 3, py = 0, pw = 3, ph = 2\<rparr>
       (fmupd ''A'' \<lparr>px = 0, py = 0, pw = 3, ph = 2\<rparr> fmempty)"
  by (simp add: compactLayoutsUtil_def example_items place_at[OF example_scan_A]
      place_at[OF example_scan_B])

section \<open>Invariants of the placement loop\<close>

lemma items_set:
  "set (layoutItems L V) = (\<lambda>k. (k, the (fmlookup L k))) ` {k \<in> set V. fmlookup L k \<noteq> None}"
  by (simp add: layoutItems_def)

lemma items_lookup:
  assumes "item \<in> set (layoutItems L V)"
  shows "fst item \<in> set V" and "fmlookup L (fst item) = Some (snd item)"
  using assms by (auto simp: items_set)

lemma items_keys: "fst ` set (layoutItems L V) = set V \<inter> fmdom' L"
  by (auto simp: items_set image_iff fmlookup_dom'_iff)

lemma foldl_place_dom:
  "fmdom' (fst (foldl place st items)) = fmdom' (fst st) \<union> fst ` set items"
proof (induction items arbitrary: st)
  case Nil
  show ?case by simp
next
  case (Cons item items)
  have "fmdom' (fst (place st item)) = insert (fst item) (fmdom' (fst st))"
    by (simp add: place_written)
  with Cons.IH[of "place st item"] show ?case by auto
qed

lemma foldl_place_inv:
  assumes init: "\<And>k p. fmlookup (fst st) k = Some p \<Longrightarrow> P k p"
      and step: "\<And>s item. item \<in> set items \<Longrightarrow> P (fst item) (written s item)"
      and look: "fmlookup (fst (foldl place st items)) k = Some p"
  shows "P k p"
  using assms
proof (induction items arbitrary: st)
  case Nil
  then show ?case by simp
next
  case (Cons item items)
  have "\<And>k p. fmlookup (fst (place st item)) k = Some p \<Longrightarrow> P k p"
  proof -
    fix k p assume "fmlookup (fst (place st item)) k = Some p"
    then have "(k = fst item \<and> p = written st item) \<or> fmlookup (fst st) k = Some p"
      by (auto simp: place_written split: if_splits)
    then show "P k p" using Cons.prems(1) Cons.prems(2)[of item st] by auto
  qed
  moreover have "\<And>s i. i \<in> set items \<Longrightarrow> P (fst i) (written s i)"
    using Cons.prems(2) by simp
  moreover have "fmlookup (fst (foldl place (place st item) items)) k = Some p"
    using Cons.prems(3) by simp
  ultimately show ?case by (rule Cons.IH)
qed

lemma written_bounds:
  assumes "pw (snd item) \<le> 12"
  shows "0 \<le> px (written st item) \<and> px (written st item) + pw (snd item) \<le> 12 \<and>
         0 \<le> py (written st item)"
proof (cases "compactScan (snd st) (pw (snd item)) (ph (snd item))")
  case None
  with assms show ?thesis by (simp add: written_None)
next
  case (Some xy)
  obtain x y where xy: "xy = (x, y)" by (cases xy)
  with Some have "fits (snd st) x y (pw (snd item)) (ph (snd item))"
    by (simp add: compactScan_Some)
  with Some xy show ?thesis by (simp add: written_Some fits_def)
qed

lemma place_fallback_at:
  assumes "compactScan g w h = None" and "pw it = w" and "ph it = h"
  shows "place (c, g) (k, it) =
    (fmupd k \<lparr>px = 0, py = int (fcard (fmdom c)) * 2, pw = w, ph = h\<rparr> c,
     g \<union> rect 0 (int (fcard (fmdom c)) * 2) w h)"
  using assms by (simp add: place_None)

lemma written_free:
  assumes "compactScan (snd st) (pw (snd item)) (ph (snd item)) \<noteq> None"
  shows "footprint (written st item) \<inter> snd st = {}"
proof -
  from assms obtain x y where s: "compactScan (snd st) (pw (snd item)) (ph (snd item)) = Some (x, y)"
    by auto
  then have "fits (snd st) x y (pw (snd item)) (ph (snd item))" by (simp add: compactScan_Some)
  with s show ?thesis by (simp add: written_Some footprint_def fits_def)
qed

lemma place_packed:
  assumes "packed st" and "compactScan (snd st) (pw (snd item)) (ph (snd item)) \<noteq> None"
  shows "packed (place st item)"
proof -
  let ?w = "written st item"
  have free: "footprint ?w \<inter> snd st = {}" using assms(2) by (rule written_free)
  have sub: "\<And>k p. fmlookup (fst st) k = Some p \<Longrightarrow> footprint p \<subseteq> snd st"
    using assms(1) by (simp add: packed_def)
  have dis: "\<forall>k1 k2 p1 p2. k1 \<noteq> k2 \<and> fmlookup (fst st) k1 = Some p1 \<and>
      fmlookup (fst st) k2 = Some p2 \<longrightarrow> footprint p1 \<inter> footprint p2 = {}"
    using assms(1) by (simp add: packed_def)
  have old: "footprint p \<inter> footprint ?w = {}" if "fmlookup (fst st) k = Some p" for k p
    using sub[OF that] free by blast
  show ?thesis
    unfolding packed_def place_written fst_conv snd_conv
  proof (intro conjI allI impI)
    fix k p assume "fmlookup (fmupd (fst item) ?w (fst st)) k = Some p"
    then have "p = ?w \<or> fmlookup (fst st) k = Some p" by (cases "fst item = k") simp_all
    then show "footprint p \<subseteq> snd st \<union> footprint ?w"
    proof
      assume "p = ?w"
      then show ?thesis by simp
    next
      assume "fmlookup (fst st) k = Some p"
      from sub[OF this] show ?thesis by (rule subset_trans) simp
    qed
  next
    fix k1 k2 p1 p2
    assume a: "k1 \<noteq> k2 \<and> fmlookup (fmupd (fst item) ?w (fst st)) k1 = Some p1 \<and>
        fmlookup (fmupd (fst item) ?w (fst st)) k2 = Some p2"
    show "footprint p1 \<inter> footprint p2 = {}"
    proof (cases "k1 = fst item")
      case True
      with a have ne: "fst item \<noteq> k2" by simp
      from a True have "p1 = ?w" by simp
      moreover from a ne have "fmlookup (fst st) k2 = Some p2" by simp
      ultimately show ?thesis using old[of k2 p2] by (simp add: Int_commute)
    next
      case False
      note k1 = this
      then have l1: "fmlookup (fst st) k1 = Some p1" using a by simp
      show ?thesis
      proof (cases "k2 = fst item")
        case True
        with a have "p2 = ?w" by simp
        with old[OF l1] show ?thesis by simp
      next
        case False
        then have "fmlookup (fst st) k2 = Some p2" using a by simp
        with dis[rule_format, of k1 k2 p1 p2] a l1 show ?thesis by simp
      qed
    qed
  qed
qed

lemma foldl_place_packed:
  assumes "packed st" and "noFallback st items"
  shows "packed (foldl place st items)"
  using assms
proof (induction items arbitrary: st)
  case Nil
  then show ?case by simp
next
  case (Cons item items)
  from Cons.prems have "packed (place st item)" by (simp add: place_packed)
  moreover from Cons.prems have "noFallback (place st item) items" by simp
  ultimately show ?case using Cons.IH by simp
qed

lemma example_noFallback: "noFallback (fmempty, {}) (layoutItems exampleLayout [''A'', ''B''])"
  by (simp add: example_items example_scan_A place_at[OF example_scan_A] example_scan_B)

lemma overflow_items:
  "layoutItems overflowLayout [''A'', ''B''] =
     [(''A'', \<lparr>px = 0, py = 0, pw = 12, ph = 100\<rparr>), (''B'', \<lparr>px = 0, py = 100, pw = 1, ph = 1\<rparr>)]"
  by (simp add: layoutItems_def overflowLayout_def)

lemma overflow_scan_A: "compactScan {} 12 100 = Some (0, 0)"
  by (simp add: compactScan_Some fits_empty) arith

lemma overflow_scan_B: "compactScan (rect 0 0 12 100) 1 1 = None"
  by (simp add: compactScan_None fits_rect)

lemma overflow_place_A:
  "place (fmempty, {}) (''A'', \<lparr>px = 0, py = 0, pw = 12, ph = 100\<rparr>) =
     (fmupd ''A'' \<lparr>px = 0, py = 0, pw = 12, ph = 100\<rparr> fmempty, rect 0 0 12 100)"
  by (simp add: place_at[OF overflow_scan_A])

lemma overflow_place_B:
  "place (fmupd ''A'' \<lparr>px = 0, py = 0, pw = 12, ph = 100\<rparr> fmempty, rect 0 0 12 100)
         (''B'', \<lparr>px = 0, py = 100, pw = 1, ph = 1\<rparr>) =
     (fmupd ''B'' \<lparr>px = 0, py = 2, pw = 1, ph = 1\<rparr>
        (fmupd ''A'' \<lparr>px = 0, py = 0, pw = 12, ph = 100\<rparr> fmempty),
      rect 0 0 12 100 \<union> rect 0 2 1 1)"
  by (simp add: place_fallback_at[OF overflow_scan_B] fcard_finsert_if fcard_fempty)

lemma overflow_result:
  "compactLayoutsUtil overflowLayout [''A'', ''B''] =
     fmupd ''B'' \<lparr>px = 0, py = 2, pw = 1, ph = 1\<rparr>
       (fmupd ''A'' \<lparr>px = 0, py = 0, pw = 12, ph = 100\<rparr> fmempty)"
  by (simp add: compactLayoutsUtil_def overflow_items overflow_place_A overflow_place_B)

lemma compact_sizes:
  assumes "fmlookup (compactLayoutsUtil L V) k = Some p"
  shows "\<exists>q. fmlookup L k = Some q \<and> pw p = pw q \<and> ph p = ph q"
proof -
  let ?P = "\<lambda>k p. \<exists>q. fmlookup L k = Some q \<and> pw p = pw q \<and> ph p = ph q"
  show "?P k p"
  proof (rule foldl_place_inv[where P = ?P and st = "(fmempty, {})" and items = "layoutItems L V"])
    show "\<And>k p. fmlookup (fst (fmempty, {})) k = Some p \<Longrightarrow> ?P k p" by simp
    show "\<And>s item. item \<in> set (layoutItems L V) \<Longrightarrow> ?P (fst item) (written s item)"
      by (simp add: items_lookup)
    show "fmlookup (fst (foldl place (fmempty, {}) (layoutItems L V))) k = Some p"
      using assms by (simp add: compactLayoutsUtil_def)
  qed
qed

lemma foldl_place_grid:
  "snd (foldl place st items) = snd st \<union> covered (placedSeq st items)"
proof (induction items arbitrary: st)
  case Nil
  show ?case by (simp add: covered_def)
next
  case (Cons item items)
  have "snd (place st item) = snd st \<union> footprint (written st item)"
    by (simp add: place_written)
  with Cons.IH[of "place st item"] show ?case by (auto simp: covered_def)
qed

lemma foldl_place_lookup_other:
  assumes "k \<notin> fst ` set items"
  shows "fmlookup (fst (foldl place st items)) k = fmlookup (fst st) k"
  using assms
proof (induction items arbitrary: st)
  case Nil
  show ?case by simp
next
  case (Cons item items)
  from Cons.prems have ne: "fst item \<noteq> k" and rest: "k \<notin> fst ` set items" by auto
  have "fmlookup (fst (place st item)) k = fmlookup (fst st) k"
    using ne by (simp add: place_written)
  with Cons.IH[OF rest, of "place st item"] show ?case by simp
qed

lemma example_placed:
  "covered (placedSeq (fmempty, {}) [(''A'', \<lparr>px = 0, py = 0, pw = 3, ph = 2\<rparr>)]) = rect 0 0 3 2"
  by (simp add: covered_def written_Some[where x = 0 and y = 0] example_scan_A footprint_def)

lemma overflow_placed:
  "covered (placedSeq (fmempty, {}) [(''A'', \<lparr>px = 0, py = 0, pw = 12, ph = 100\<rparr>)]) = rect 0 0 12 100"
  by (simp add: covered_def written_Some[where x = 0 and y = 0] overflow_scan_A footprint_def)

lemma place_sameWidget:
  assumes "sameWidget i j"
  shows "place st i = place st j"
proof -
  obtain c g where st: "st = (c, g)" by (cases st)
  obtain k1 p1 where i: "i = (k1, p1)" by (cases i)
  obtain k2 p2 where j: "j = (k2, p2)" by (cases j)
  from assms have "k1 = k2" "pw p1 = pw p2" "ph p1 = ph p2" by (simp_all add: sameWidget_def i j)
  then show ?thesis by (simp add: st i j place_def split: option.splits)
qed

lemma foldl_place_sameWidget:
  assumes "list_all2 sameWidget xs ys"
  shows "foldl place st xs = foldl place st ys"
  using assms
proof (induction xs ys arbitrary: st rule: list_all2_induct)
  case Nil
  show ?case by simp
next
  case (Cons x xs y ys)
  then show ?case by (simp add: place_sameWidget[of x y])
qed

lemma reorder_items:
  "layoutItems reorderLayout [''A'', ''E'', ''Q''] =
     [(''A'', \<lparr>px = 0, py = 0, pw = 6, ph = 1\<rparr>),
      (''E'', \<lparr>px = 0, py = 1, pw = 8, ph = 1\<rparr>),
      (''Q'', \<lparr>px = 0, py = 2, pw = 4, ph = 2\<rparr>)]"
  by (simp add: layoutItems_def reorderLayout_def)

lemma reorder_scan_A: "compactScan {} 6 1 = Some (0, 0)"
  by (simp add: compactScan_Some fits_empty) arith

lemma reorder_scan_E: "compactScan (rect 0 0 6 1) 8 1 = Some (0, 1)"
  by (simp add: compactScan_Some fits_rect) arith

lemma reorder_scan_Q: "compactScan (rect 0 0 6 1 \<union> rect 0 1 8 1) 4 2 = Some (8, 0)"
  by (simp add: compactScan_Some fits_Un fits_rect) arith

lemma reorder_result:
  "compactLayoutsUtil reorderLayout [''A'', ''E'', ''Q''] =
     fmupd ''Q'' \<lparr>px = 8, py = 0, pw = 4, ph = 2\<rparr>
       (fmupd ''E'' \<lparr>px = 0, py = 1, pw = 8, ph = 1\<rparr>
         (fmupd ''A'' \<lparr>px = 0, py = 0, pw = 6, ph = 1\<rparr> fmempty))"
  by (simp add: compactLayoutsUtil_def reorder_items place_at[OF reorder_scan_A]
      place_at[OF reorder_scan_E] place_at[OF reorder_scan_Q])

lemma reorder_items2:
  "layoutItems
     (fmupd ''Q'' \<lparr>px = 8, py = 0, pw = 4, ph = 2\<rparr>
       (fmupd ''E'' \<lparr>px = 0, py = 1, pw = 8, ph = 1\<rparr>
         (fmupd ''A'' \<lparr>px = 0, py = 0, pw = 6, ph = 1\<rparr> fmempty)))
     [''A'', ''E'', ''Q''] =
     [(''A'', \<lparr>px = 0, py = 0, pw = 6, ph = 1\<rparr>),
      (''Q'', \<lparr>px = 8, py = 0, pw = 4, ph = 2\<rparr>),
      (''E'', \<lparr>px = 0, py = 1, pw = 8, ph = 1\<rparr>)]"
  by (simp add: layoutItems_def)

lemma reorder_scan_Q2: "compactScan (rect 0 0 6 1) 4 2 = Some (6, 0)"
  by (simp add: compactScan_Some fits_rect) arith

lemma reorder_scan_E2: "compactScan (rect 0 0 6 1 \<union> rect 6 0 4 2) 8 1 = Some (0, 2)"
  by (simp add: compactScan_Some fits_Un fits_rect) arith

lemma reorder_result2:
  "compactLayoutsUtil (compactLayoutsUtil reorderLayout [''A'', ''E'', ''Q'']) [''A'', ''E'', ''Q''] =
     fmupd ''E'' \<lparr>px = 0, py = 2, pw = 8, ph = 1\<rparr>
       (fmupd ''Q'' \<lparr>px = 6, py = 0, pw = 4, ph = 2\<rparr>
         (fmupd ''A'' \<lparr>px = 0, py = 0, pw = 6, ph = 1\<rparr> fmempty))"
  unfolding reorder_result
  by (simp add: compactLayoutsUtil_def reorder_items2 place_at[OF reorder_scan_A]
      place_at[OF reorder_scan_Q2] place_at[OF reorder_scan_E2])

text \<open>
  The processing order is ascending in \<open>(y, x)\<close>, and widgets with equal \<open>(y, x)\<close> keep
  the order of \<open>visibleKeys\<close>.
\<close>

lemma layoutItems_sorted:
  "sorted (map (\<lambda>item. (py (snd item), px (snd item))) (layoutItems L V))"
  unfolding layoutItems_def by (rule sorted_sort_key)

lemma layoutItems_stable:
  "filter (\<lambda>item. (py (snd item), px (snd item)) = yx) (layoutItems L V) =
   filter (\<lambda>item. (py (snd item), px (snd item)) = yx)
     (map (\<lambda>key. (key, the (fmlookup L key))) (filter (\<lambda>key. fmlookup L key \<noteq> None) V))"
  unfolding layoutItems_def by (rule sort_key_stable)

text \<open>
  The fallback is out of reach while the rows suffice: if every widget is at most 12
  wide and at least 1 high and the heights add up to at most 100, the search finds a
  position for each of them.
\<close>

lemma noFallback_rows:
  assumes sizes: "\<forall>item \<in> set items. pw (snd item) \<le> 12 \<and> 1 \<le> ph (snd item)"
      and below: "\<forall>c \<in> snd st. fst c < H"
      and H: "0 \<le> H"
      and total: "H + sum_list (map (\<lambda>item. ph (snd item)) items) \<le> 100"
  shows "noFallback st items"
  using assms
proof (induction items arbitrary: st H)
  case Nil
  show ?case by simp
next
  case (Cons item items)
  let ?w = "pw (snd item)" and ?h = "ph (snd item)"
  from Cons.prems(1) have w: "?w \<le> 12" and h: "1 \<le> ?h" by simp_all
  from Cons.prems(1) have rest: "\<forall>i \<in> set items. pw (snd i) \<le> 12 \<and> 1 \<le> ph (snd i)" by simp
  have nonneg: "0 \<le> sum_list (map (\<lambda>i. ph (snd i)) items)"
    using rest by (intro sum_list_nonneg) auto
  with Cons.prems(4) h have H99: "H \<le> 99" by simp
  have "rect 0 H ?w ?h \<inter> snd st = {}"
    using Cons.prems(2) by (auto simp: rect_def)
  with w Cons.prems(3) have fitH: "fits (snd st) 0 H ?w ?h" by (simp add: fits_def)
  with H99 have "compactScan (snd st) ?w ?h \<noteq> None"
    unfolding compactScan_None by blast
  then obtain x y where scan: "compactScan (snd st) ?w ?h = Some (x, y)" by auto
  then have "\<forall>x' y'. fits (snd st) x' y' ?w ?h \<longrightarrow> y < y' \<or> (y = y' \<and> x \<le> x')"
    by (simp add: compactScan_Some)
  with fitH have yH: "y \<le> H" by fastforce
  have grid: "snd (place st item) = snd st \<union> rect x y ?w ?h"
    using written_Some[OF scan] by (simp add: place_written footprint_def)
  have below': "\<forall>c \<in> snd (place st item). fst c < H + ?h"
    unfolding grid using Cons.prems(2) yH h by (auto simp: rect_def)
  have "noFallback (place st item) items"
  proof (rule Cons.IH[OF rest below'])
    show "0 \<le> H + ?h" using Cons.prems(3) h by simp
    show "H + ?h + sum_list (map (\<lambda>i. ph (snd i)) items) \<le> 100"
      using Cons.prems(4) by simp
  qed
  with scan show ?case by simp
qed

lemma noFallback_bounded:
  assumes "\<forall>item \<in> set (layoutItems L V). pw (snd item) \<le> 12 \<and> 1 \<le> ph (snd item)"
      and "sum_list (map (\<lambda>item. ph (snd item)) (layoutItems L V)) \<le> 100"
  shows "noFallback (fmempty, {}) (layoutItems L V)"
  using assms(1) by (rule noFallback_rows[where H = 0]) (use assms(2) in simp_all)

lemma items_last_occurrence:
  assumes "k \<in> fmdom' (compactLayoutsUtil L V)"
  shows "\<exists>pre it post. layoutItems L V = pre @ (k, it) # post \<and> k \<notin> fst ` set post"
proof -
  from assms have "k \<in> fst ` set (layoutItems L V)"
    by (simp add: compactLayoutsUtil_def foldl_place_dom)
  then have "k \<in> set (map fst (layoutItems L V))" by simp
  from split_list_last[OF this]
  obtain ks1 ks2 where ks: "map fst (layoutItems L V) = ks1 @ k # ks2" "k \<notin> set ks2"
    by blast
  then obtain pre item post where s: "layoutItems L V = pre @ item # post"
      "map fst pre = ks1" "fst item = k" "map fst post = ks2"
    by (auto simp: map_eq_append_conv Cons_eq_map_conv)
  from ks(2) have "k \<notin> set (map fst post)" unfolding s(4) .
  then have "k \<notin> fst ` set post" by simp
  moreover from s(1,3) have "layoutItems L V = pre @ (k, snd item) # post" by (cases item) simp
  ultimately show ?thesis by blast
qed

lemma foldl_place_count:
  "fcard (fmdom (fst (foldl place (fmempty, {}) items))) = card (fst ` set items)"
proof -
  have "fcard (fmdom (fst (foldl place (fmempty, {}) items)))
        = card (fmdom' (fst (foldl place (fmempty, {}) items)))"
    by (simp add: fmdom'_alt_def fcard.rep_eq)
  then show ?thesis by (simp add: foldl_place_dom)
qed

text \<open>
  Compaction run again: the result depends on the items only through their order, keys
  and sizes.
\<close>

lemma idempotent_if_same_order:
  assumes order: "map fst (layoutItems (compactLayoutsUtil L V) V) = map fst (layoutItems L V)"
  shows "compactLayoutsUtil (compactLayoutsUtil L V) V = compactLayoutsUtil L V"
proof -
  let ?out = "compactLayoutsUtil L V"
  let ?xs = "layoutItems ?out V" and ?ys = "layoutItems L V"
  from order have len: "length ?xs = length ?ys" by (rule map_eq_imp_length_eq)
  have "list_all2 sameWidget ?xs ?ys"
  proof (rule list_all2_all_nthI[OF len])
    fix n assume n: "n < length ?xs"
    with len have n': "n < length ?ys" by simp
    from order n n' have key: "fst (?xs ! n) = fst (?ys ! n)"
      by (metis nth_map)
    from n have "?xs ! n \<in> set ?xs" by simp
    then have x: "fmlookup ?out (fst (?xs ! n)) = Some (snd (?xs ! n))" by (rule items_lookup)
    from n' have "?ys ! n \<in> set ?ys" by simp
    then have y: "fmlookup L (fst (?ys ! n)) = Some (snd (?ys ! n))" by (rule items_lookup)
    from compact_sizes[OF x] y key
    show "sameWidget (?xs ! n) (?ys ! n)" by (auto simp: sameWidget_def)
  qed
  then have "foldl place (fmempty, {}) ?xs = foldl place (fmempty, {}) ?ys"
    by (rule foldl_place_sameWidget)
  then show ?thesis by (simp add: compactLayoutsUtil_def)
qed

text \<open>
  Widgets of one size are placed at strictly increasing positions, so compaction keeps
  their order and a second run changes nothing.
\<close>

lemma fits_mono:
  assumes "g \<subseteq> g'" and "fits g' x y w h"
  shows "fits g x y w h"
  using assms unfolding fits_def by blast

lemma length_placedSeq [simp]: "length (placedSeq st items) = length items"
  by (induction items arbitrary: st) simp_all

lemma placed_increasing:
  assumes sizes: "\<forall>item \<in> set items. pw (snd item) = w \<and> ph (snd item) = h"
      and w: "1 \<le> w" and h: "1 \<le> h"
      and nf: "noFallback st items"
      and lb: "\<forall>x' y'. fits (snd st) x' y' w h \<longrightarrow> b < (y', x')"
  shows "(\<forall>p \<in> set (placedSeq st items). b < (py p, px p)) \<and>
         sorted_wrt (<) (map (\<lambda>p. (py p, px p)) (placedSeq st items))"
  using sizes nf lb
proof (induction items arbitrary: st b)
  case Nil
  show ?case by simp
next
  case (Cons item items)
  from Cons.prems(1) have wh: "pw (snd item) = w" "ph (snd item) = h" by simp_all
  from Cons.prems(2) obtain x y where scan: "compactScan (snd st) w h = Some (x, y)"
    by (auto simp: wh)
  then have wr: "written st item = \<lparr>px = x, py = y, pw = w, ph = h\<rparr>"
    using written_Some[of st item x y] by (simp add: wh)
  from scan have f: "fits (snd st) x y w h"
    and least: "\<forall>x' y'. fits (snd st) x' y' w h \<longrightarrow> y < y' \<or> (y = y' \<and> x \<le> x')"
    by (simp_all add: compactScan_Some)
  from f Cons.prems(3) have b: "b < (y, x)" by blast
  have grid: "snd (place st item) = snd st \<union> rect x y w h"
    by (simp add: place_written wr footprint_def)
  have cell: "(y, x) \<in> rect x y w h" using w h by (simp add: rect_def)
  have lb': "\<forall>x' y'. fits (snd (place st item)) x' y' w h \<longrightarrow> (y, x) < (y', x')"
  proof (intro allI impI)
    fix x' y' assume f': "fits (snd (place st item)) x' y' w h"
    then have "fits (snd st) x' y' w h" unfolding grid by (rule fits_mono[rotated]) simp
    with least have le: "y < y' \<or> (y = y' \<and> x \<le> x')" by blast
    have "\<not> (y' = y \<and> x' = x)"
    proof
      assume "y' = y \<and> x' = x"
      with f' have "rect x y w h \<inter> (snd st \<union> rect x y w h) = {}"
        unfolding grid fits_def by simp
      with cell show False by blast
    qed
    with le show "(y, x) < (y', x')" by auto
  qed
  from Cons.prems(1) have sizes': "\<forall>i \<in> set items. pw (snd i) = w \<and> ph (snd i) = h" by simp
  from Cons.prems(2) have nf': "noFallback (place st item) items" by simp
  from Cons.IH[OF sizes' nf' lb']
  have later: "\<forall>p \<in> set (placedSeq (place st item) items). (y, x) < (py p, px p)"
    and sorted: "sorted_wrt (<) (map (\<lambda>p. (py p, px p)) (placedSeq (place st item) items))"
    by simp_all
  have "\<forall>p \<in> set (placedSeq (place st item) items). b < (py p, px p)"
    using later b by (meson less_trans)
  with later sorted b show ?case by (simp add: wr)
qed

lemma placed_lookup:
  assumes "distinct (map fst items)"
      and "(k, p) \<in> set (zip (map fst items) (placedSeq st items))"
  shows "fmlookup (fst (foldl place st items)) k = Some p"
  using assms
proof (induction items arbitrary: st)
  case Nil
  then show ?case by simp
next
  case (Cons item items)
  from Cons.prems(1) have notin: "fst item \<notin> fst ` set items" and d: "distinct (map fst items)"
    by simp_all
  from Cons.prems(2) consider "k = fst item" "p = written st item"
    | "(k, p) \<in> set (zip (map fst items) (placedSeq (place st item) items))"
    by auto
  then show ?case
  proof cases
    case 1
    have "fmlookup (fst (foldl place (place st item) items)) (fst item)
        = fmlookup (fst (place st item)) (fst item)"
      using notin by (rule foldl_place_lookup_other)
    also have "\<dots> = Some (written st item)" by (simp add: place_written)
    finally show ?thesis using 1 by simp
  next
    case 2
    from Cons.IH[OF d 2] show ?thesis by simp
  qed
qed

lemma items_distinct:
  assumes "distinct V"
  shows "distinct (map fst (layoutItems L V))"
proof -
  let ?xs = "map (\<lambda>key. (key, the (fmlookup L key))) (filter (\<lambda>key. fmlookup L key \<noteq> None) V)"
  have "distinct ?xs" using assms by (simp add: distinct_map inj_on_def)
  moreover have inj: "inj_on fst (set ?xs)" by (auto simp: inj_on_def)
  ultimately have "distinct (layoutItems L V)" by (simp add: layoutItems_def)
  moreover have "inj_on fst (set (layoutItems L V))" using inj by (simp add: layoutItems_def)
  ultimately show ?thesis by (simp add: distinct_map)
qed

lemma items_length:
  "length (layoutItems L V) = length (filter (\<lambda>key. fmlookup L key \<noteq> None) V)"
  by (simp add: layoutItems_def)

lemma map_snd_zip_fun:
  assumes "length xs = length ys"
  shows "map (\<lambda>e. g (snd e)) (zip xs ys) = map g ys"
  using assms by (induction xs ys rule: list_induct2) simp_all

lemma same_order_uniform:
  assumes dV: "distinct V"
      and sizes: "\<forall>k \<in> set V. \<forall>q. fmlookup L k = Some q \<longrightarrow> pw q = w \<and> ph q = h"
      and w: "1 \<le> w" "w \<le> 12" and h: "1 \<le> h"
      and rows: "int (length V) * h \<le> 100"
  shows "map fst (layoutItems (compactLayoutsUtil L V) V) = map fst (layoutItems L V)"
proof -
  let ?items = "layoutItems L V"
  let ?out = "compactLayoutsUtil L V"
  let ?P = "placedSeq (fmempty, {}) ?items"
  let ?X = "zip (map fst ?items) ?P"
  let ?items2 = "layoutItems ?out V"
  let ?pos = "\<lambda>p. (py p, px p)"
  let ?pos' = "\<lambda>item :: 'a \<times> placement. (py (snd item), px (snd item))"
  have sizes1: "\<forall>item \<in> set ?items. pw (snd item) = w \<and> ph (snd item) = h"
  proof
    fix item assume "item \<in> set ?items"
    then have "fst item \<in> set V" "fmlookup L (fst item) = Some (snd item)"
      by (rule items_lookup)+
    with sizes show "pw (snd item) = w \<and> ph (snd item) = h" by blast
  qed
  have len1: "length ?items \<le> length V" by (simp add: items_length)
  have "sum_list (map (\<lambda>item. ph (snd item)) ?items) = sum_list (map (\<lambda>item. h) ?items)"
    using sizes1 by (intro arg_cong[where f = sum_list] map_cong) simp_all
  also have "\<dots> = int (length ?items) * h" by (simp add: sum_list_triv)
  also have "\<dots> \<le> int (length V) * h" using len1 h by (intro mult_right_mono) simp_all
  finally have total: "sum_list (map (\<lambda>item. ph (snd item)) ?items) \<le> 100" using rows by simp
  have nf: "noFallback (fmempty, {}) ?items"
    using sizes1 w h total by (intro noFallback_bounded) auto
  have lb: "\<forall>x' y'. fits (snd (fmempty :: 'a WidgetLayoutConfig, {} :: grid)) x' y' w h
              \<longrightarrow> (-1, 0) < (y', x')"
    by (simp add: fits_empty)
  from placed_increasing[OF sizes1 w(1) h nf lb]
  have inc: "sorted_wrt (<) (map ?pos ?P)" by simp
  have dk: "distinct (map fst ?items)" using dV by (rule items_distinct)
  have lookupX: "fmlookup ?out k = Some p" if "(k, p) \<in> set ?X" for k p
    using placed_lookup[OF dk that] by (simp add: compactLayoutsUtil_def)
  have dom: "fmdom' ?out = set V \<inter> fmdom' L"
    by (simp add: compactLayoutsUtil_def foldl_place_dom items_keys)
  have set2: "set ?items2 = set ?X"
  proof (rule set_eqI)
    fix e :: "'a \<times> placement"
    obtain k p where e: "e = (k, p)" by (cases e)
    show "e \<in> set ?items2 \<longleftrightarrow> e \<in> set ?X"
    proof
      assume "e \<in> set ?X"
      then have kp: "(k, p) \<in> set ?X" by (simp add: e)
      then have look: "fmlookup ?out k = Some p" by (rule lookupX)
      from kp have "k \<in> set (map fst ?items)" by (rule set_zip_leftD)
      then have "k \<in> set V" using items_keys[of L V] by auto
      with look show "e \<in> set ?items2" by (auto simp: e items_set image_iff)
    next
      assume "e \<in> set ?items2"
      then have kV: "k \<in> set V" and look: "fmlookup ?out k = Some p"
        using items_lookup[of e ?out V] by (simp_all add: e)
      from look have "k \<in> fmdom' ?out" by (rule fmdom'I)
      then have "k \<in> set (map fst ?items)" using dom items_keys[of L V] by simp
      then obtain p' where kp': "(k, p') \<in> set ?X"
        using in_set_impl_in_set_zip1[of "map fst ?items" ?P k] by auto
      from lookupX[OF kp'] look have "p' = p" by simp
      with kp' show "e \<in> set ?X" by (simp add: e)
    qed
  qed
  have "filter (\<lambda>key. fmlookup ?out key \<noteq> None) V = filter (\<lambda>key. fmlookup L key \<noteq> None) V"
  proof (rule filter_cong[OF refl])
    fix k assume "k \<in> set V"
    then have "k \<in> fmdom' ?out \<longleftrightarrow> k \<in> fmdom' L" using dom by simp
    then show "(fmlookup ?out k \<noteq> None) = (fmlookup L k \<noteq> None)"
      by (simp add: fmlookup_dom'_iff)
  qed
  then have len2: "length ?items2 = length ?X" by (simp add: items_length)
  have posX: "map ?pos' ?X = map ?pos ?P"
    by (rule map_snd_zip_fun) simp
  from inc have sX: "sorted (map ?pos' ?X)" and dX: "distinct (map ?pos' ?X)"
    unfolding posX by (simp_all add: strict_sorted_iff)
  have s2: "sorted (map ?pos' ?items2)" by (rule layoutItems_sorted)
  have sets: "set (map ?pos' ?items2) = set (map ?pos' ?X)" using set2 by simp
  have "card (set (map ?pos' ?items2)) = length (map ?pos' ?items2)"
    unfolding sets using distinct_card[OF dX] len2 by simp
  then have d2: "distinct (map ?pos' ?items2)" by (rule card_distinct)
  have eqpos: "map ?pos' ?items2 = map ?pos' ?X"
    using s2 d2 sX dX sets by (rule sorted_distinct_set_unique)
  have inj: "inj_on ?pos' (set ?items2 \<union> set ?X)"
    using dX unfolding set2 by (simp add: distinct_map)
  from eqpos inj have "?items2 = ?X" by (rule map_inj_on)
  then show ?thesis by (simp add: map_fst_zip)
qed

lemma compact_idempotent_uniform:
  assumes "distinct V"
      and "\<forall>k \<in> set V. \<forall>q. fmlookup L k = Some q \<longrightarrow> pw q = w \<and> ph q = h"
      and "1 \<le> w" "w \<le> 12" and "1 \<le> h"
      and "int (length V) * h \<le> 100"
  shows "compactLayoutsUtil (compactLayoutsUtil L V) V = compactLayoutsUtil L V"
  using same_order_uniform[OF assms] by (rule idempotent_if_same_order)

section \<open>The position finder and the loader\<close>

lemma markLayout_rect:
  "markLayout p = {py p ..< py p + ph p} \<times> {px p ..< min (px p + pw p) 12}"
  by (auto simp: markLayout_def COLS_def)

lemma rect_markLayout:
  assumes "0 \<le> x" and "x + w \<le> 12"
  shows "rect x y w h \<inter> markLayout p = rect x y w h \<inter> footprint p"
  using assms by (auto simp: markLayout_rect footprint_def rect_def)

lemma rect_layout_grid:
  assumes "0 \<le> x" and "x + w \<le> 12"
  shows "rect x y w h \<inter> (\<Union>p \<in> fmran' L. markLayout p) = {} \<longleftrightarrow>
         rect x y w h \<inter> occupancy L = {}"
proof -
  have "rect x y w h \<inter> (\<Union>p \<in> fmran' L. markLayout p) = (\<Union>p \<in> fmran' L. rect x y w h \<inter> markLayout p)"
    by blast
  also have "\<dots> = (\<Union>p \<in> fmran' L. rect x y w h \<inter> footprint p)"
    using rect_markLayout[OF assms] by simp
  also have "\<dots> = rect x y w h \<inter> occupancy L"
    unfolding occupancy_def by blast
  finally show ?thesis by simp
qed

lemma findNext_ok:
  assumes "0 \<le> x" and "x + w \<le> 12"
  shows "(\<forall>dy \<in> {0..<h}. \<forall>dx \<in> {0..<w}. (y + dy, x + dx) \<notin> (\<Union>p \<in> fmran' L. markLayout p))
         = (rect x y w h \<inter> occupancy L = {})"
  unfolding cells_free_rect using assms by (rule rect_layout_grid)

lemma findNext_Some:
  assumes "scanRows (\<lambda>x y. \<forall>dy \<in> {0..<h}. \<forall>dx \<in> {0..<w}.
              (y + dy, x + dx) \<notin> (\<Union>p \<in> fmran' L. markLayout p)) (12 - w) 0 = Some (x, y)"
  shows "findNextGridPosition L w h = (x, y)"
  using assms by (simp add: findNextGridPosition_def COLS_def)

lemma findNext_None:
  assumes "scanRows (\<lambda>x y. \<forall>dy \<in> {0..<h}. \<forall>dx \<in> {0..<w}.
              (y + dy, x + dx) \<notin> (\<Union>p \<in> fmran' L. markLayout p)) (12 - w) 0 = None"
  shows "findNextGridPosition L w h = (0, int (fcard (fmdom L)) * 2)"
  using assms by (simp add: findNextGridPosition_def COLS_def)

lemma fmran'_single: "fmran' (fmupd k v fmempty) = {v}"
  by (auto simp: fmlookup_ran'_iff split: if_splits)

lemma fullRow_occupancy: "occupancy fullRowLayout = rect 0 0 12 2"
  by (simp add: occupancy_def fullRowLayout_def fmran'_single footprint_def)

lemma fullGrid_occupancy: "occupancy fullGridLayout = rect 0 0 12 100"
  by (simp add: occupancy_def fullGridLayout_def fmran'_single footprint_def)

lemma isObject_typeof: "isObject v \<longleftrightarrow> typeof v = ''object'' \<and> v \<noteq> JNull"
  by (cases v) (simp_all add: isObject_def typeof_def)

lemma isObject_truthy: "isObject v \<Longrightarrow> \<not> falsy v"
  by (cases v) (simp_all add: isObject_def falsy_def)

text \<open>
  The result of the position finder: the first position that fits if there is one in
  rows 0 to 99, the fallback value otherwise.
\<close>

lemma findNext_first_fit:
  "((\<exists>x' y'. fits (occupancy L) x' y' w h \<and> y' \<le> 99) \<longrightarrow>
      fits (occupancy L) (fst (findNextGridPosition L w h)) (snd (findNextGridPosition L w h)) w h \<and>
      snd (findNextGridPosition L w h) \<le> 99 \<and>
      (\<forall>x' y'. fits (occupancy L) x' y' w h \<longrightarrow>
          snd (findNextGridPosition L w h) < y' \<or>
          (snd (findNextGridPosition L w h) = y' \<and> fst (findNextGridPosition L w h) \<le> x'))) \<and>
   (\<not> (\<exists>x' y'. fits (occupancy L) x' y' w h \<and> y' \<le> 99) \<longrightarrow>
      findNextGridPosition L w h = (0, 2 * int (fcard (fmdom L))))"
proof -
  let ?ok = "\<lambda>x y. \<forall>dy \<in> {0..<h}. \<forall>dx \<in> {0..<w}.
              (y + dy, x + dx) \<notin> (\<Union>p \<in> fmran' L. markLayout p)"
  have ok: "\<And>x y. 0 \<le> x \<Longrightarrow> x + w \<le> 12 \<Longrightarrow> ?ok x y = (rect x y w h \<inter> occupancy L = {})"
    by (rule findNext_ok)
  show ?thesis
  proof (cases "scanRows ?ok (12 - w) 0")
    case None
    then have n: "\<not> (\<exists>x y. fits (occupancy L) x y w h \<and> y \<le> 99)"
      using scan_fits_None[of w ?ok h "occupancy L", OF ok] by simp
    from None have r: "findNextGridPosition L w h = (0, 2 * int (fcard (fmdom L)))"
      by (simp add: findNext_None)
    from n r show ?thesis by blast
  next
    case (Some xy)
    obtain x y where xy: "xy = (x, y)" by (cases xy)
    with Some have s: "scanRows ?ok (12 - w) 0 = Some (x, y)" by simp
    then have f: "fits (occupancy L) x y w h \<and> y \<le> 99 \<and>
        (\<forall>x' y'. fits (occupancy L) x' y' w h \<longrightarrow> y < y' \<or> (y = y' \<and> x \<le> x'))"
      using scan_fits_Some[of w ?ok h "occupancy L" x y, OF ok] by simp
    from s have r: "findNextGridPosition L w h = (x, y)" by (rule findNext_Some)
    from f have "\<exists>x' y'. fits (occupancy L) x' y' w h \<and> y' \<le> 99" by blast
    with f show ?thesis unfolding r by simp
  qed
qed

lemma fullRow_fits: "fits (occupancy fullRowLayout) 0 2 3 2"
  unfolding fullRow_occupancy by (simp add: fits_rect)

lemma fullRow_result: "findNextGridPosition fullRowLayout 3 2 = (0, 2)"
proof -
  let ?r = "findNextGridPosition fullRowLayout 3 2"
  have ex: "\<exists>x' y'. fits (occupancy fullRowLayout) x' y' 3 2 \<and> y' \<le> 99"
    using fullRow_fits by (intro exI[of _ 0] exI[of _ 2]) simp
  from findNext_first_fit[of fullRowLayout 3 2] ex
  have a: "fits (occupancy fullRowLayout) (fst ?r) (snd ?r) 3 2"
    and b: "\<forall>x' y'. fits (occupancy fullRowLayout) x' y' 3 2 \<longrightarrow>
          snd ?r < y' \<or> (snd ?r = y' \<and> fst ?r \<le> x')"
    by blast+
  from b fullRow_fits have "snd ?r < 2 \<or> (snd ?r = 2 \<and> fst ?r \<le> 0)" by blast
  moreover from a have "0 \<le> fst ?r \<and> 2 \<le> snd ?r"
    unfolding fullRow_occupancy by (simp add: fits_rect) arith
  ultimately have "fst ?r = 0 \<and> snd ?r = 2" by arith
  then show ?thesis by (simp add: prod_eq_iff)
qed

section \<open>The claims\<close>

text \<open>
  C1 (as amended).  If no widget is placed by the fallback branch, that is, the search
  finds a position for every widget it processes, then no two distinct widgets of the
  layout \<open>compactLayoutsUtil\<close> returns have intersecting footprints.
  The condition holds in particular when the retained widgets are at most 12 wide, at
  least 1 high and at most 100 rows high together (\<open>noFallback_bounded\<close>).
  Without it the property fails: the fallback writes a widget at row \<open>2 * n\<close> without
  looking at the grid.
\<close>

theorem compact_no_overlap:
  assumes "noFallback (fmempty, {}) (layoutItems L V)"
      and "k1 \<noteq> k2"
      and "fmlookup (compactLayoutsUtil L V) k1 = Some p1"
      and "fmlookup (compactLayoutsUtil L V) k2 = Some p2"
  shows "footprint p1 \<inter> footprint p2 = {}"
proof -
  have "packed (fmempty, {})" by (simp add: packed_def)
  then have "packed (foldl place (fmempty, {}) (layoutItems L V))"
    using assms(1) by (rule foldl_place_packed)
  then have "\<forall>k1 k2 p1 p2. k1 \<noteq> k2 \<and> fmlookup (compactLayoutsUtil L V) k1 = Some p1 \<and>
      fmlookup (compactLayoutsUtil L V) k2 = Some p2 \<longrightarrow> footprint p1 \<inter> footprint p2 = {}"
    by (simp add: packed_def compactLayoutsUtil_def)
  from this[rule_format, of k1 k2 p1 p2] assms(2-4) show ?thesis by simp
qed

theorem compact_no_overlap_witness:
  "noFallback (fmempty, {}) (layoutItems exampleLayout [''A'', ''B'']) \<and>
   footprint (the (fmlookup (compactLayoutsUtil exampleLayout [''A'', ''B'']) ''A'')) \<inter>
   footprint (the (fmlookup (compactLayoutsUtil exampleLayout [''A'', ''B'']) ''B'')) = {}"
proof -
  have ne: "''A'' \<noteq> ''B''" by simp
  have a: "fmlookup (compactLayoutsUtil exampleLayout [''A'', ''B'']) ''A''
     = Some (the (fmlookup (compactLayoutsUtil exampleLayout [''A'', ''B'']) ''A''))"
    by (simp add: example_result)
  have b: "fmlookup (compactLayoutsUtil exampleLayout [''A'', ''B'']) ''B''
     = Some (the (fmlookup (compactLayoutsUtil exampleLayout [''A'', ''B'']) ''B''))"
    by (simp add: example_result)
  from compact_no_overlap[OF example_noFallback ne a b] example_noFallback show ?thesis by simp
qed

text \<open>
  C1, counterexample.  The claim as stated, for all inputs, fails on \<open>overflowLayout\<close>: A takes rows 0 to 99,
  the search finds no position for B, and the fallback puts B at row 2, column 0, a cell
  of A.
\<close>

theorem compact_overlap_counterexample:
  "fmlookup (compactLayoutsUtil overflowLayout [''A'', ''B'']) ''A''
     = Some \<lparr>px = 0, py = 0, pw = 12, ph = 100\<rparr> \<and>
   fmlookup (compactLayoutsUtil overflowLayout [''A'', ''B'']) ''B''
     = Some \<lparr>px = 0, py = 2, pw = 1, ph = 1\<rparr> \<and>
   (2, 0) \<in> footprint \<lparr>px = 0, py = 0, pw = 12, ph = 100\<rparr> \<inter>
             footprint \<lparr>px = 0, py = 2, pw = 1, ph = 1\<rparr>"
  by (simp add: overflow_result footprint_def rect_def)

text \<open>
  C2 (as amended).  Take a widget \<open>(k, it)\<close> of the processing order (the retained
  items in ascending \<open>(y, x)\<close>) at its last occurrence, which every key of the result
  has (\<open>items_last_occurrence\<close>), and let \<open>G\<close> be the cells covered by the placements
  written for the widgets processed before it.  A position fits when the footprint
  lies within the 12 columns, \<open>x, y \<ge> 0\<close>, and no cell of it is in \<open>G\<close>.
  If some position in rows 0 to 99 fits, the layout returned places \<open>k\<close>, with its
  size unchanged, at a position that fits and is least in \<open>(y, x)\<close> order among all
  positions that fit.  If none does, it places \<open>k\<close> at column 0 and row
  \<open>2 * (number of keys placed before)\<close>, whatever is there.
\<close>

theorem compact_first_fit:
  assumes split: "layoutItems L V = pre @ (k, it) # post"
      and last: "k \<notin> fst ` set post"
      and G: "G = covered (placedSeq (fmempty, {}) pre)"
  shows "if (\<exists>x y. fits G x y (pw it) (ph it) \<and> y \<le> 99)
         then (\<exists>p. fmlookup (compactLayoutsUtil L V) k = Some p \<and> pw p = pw it \<and> ph p = ph it \<and>
                 fits G (px p) (py p) (pw it) (ph it) \<and> py p \<le> 99 \<and>
                 (\<forall>x' y'. fits G x' y' (pw it) (ph it) \<longrightarrow>
                     py p < y' \<or> (py p = y' \<and> px p \<le> x')))
         else fmlookup (compactLayoutsUtil L V) k =
                Some \<lparr>px = 0, py = 2 * int (card (fst ` set pre)), pw = pw it, ph = ph it\<rparr>"
proof -
  define st where "st = foldl place (fmempty, {}) pre"
  have grid: "snd st = G" by (simp add: st_def G foldl_place_grid)
  have count: "fcard (fmdom (fst st)) = card (fst ` set pre)"
    unfolding st_def by (rule foldl_place_count)
  have "compactLayoutsUtil L V = fst (foldl place (place st (k, it)) post)"
    by (simp add: compactLayoutsUtil_def split st_def)
  then have "fmlookup (compactLayoutsUtil L V) k = fmlookup (fst (place st (k, it))) k"
    using foldl_place_lookup_other[OF last] by simp
  also have "\<dots> = Some (written st (k, it))" by (simp add: place_written)
  finally have look: "fmlookup (compactLayoutsUtil L V) k = Some (written st (k, it))" .
  show ?thesis
  proof (cases "compactScan G (pw it) (ph it)")
    case None
    then have no: "\<not> (\<exists>x y. fits G x y (pw it) (ph it) \<and> y \<le> 99)"
      by (simp add: compactScan_None)
    from None have "written st (k, it) =
        \<lparr>px = 0, py = int (fcard (fmdom (fst st))) * 2, pw = pw it, ph = ph it\<rparr>"
      using written_None[of st "(k, it)"] grid by simp
    with look count have res: "fmlookup (compactLayoutsUtil L V) k =
        Some \<lparr>px = 0, py = 2 * int (card (fst ` set pre)), pw = pw it, ph = ph it\<rparr>"
      by (simp add: mult.commute)
    show ?thesis unfolding if_not_P[OF no] by (rule res)
  next
    case (Some xy)
    obtain x y where xy: "xy = (x, y)" by (cases xy)
    with Some have scan: "compactScan G (pw it) (ph it) = Some (x, y)" by simp
    then have f: "fits G x y (pw it) (ph it) \<and> y \<le> 99 \<and>
        (\<forall>x' y'. fits G x' y' (pw it) (ph it) \<longrightarrow> y < y' \<or> (y = y' \<and> x \<le> x'))"
      by (simp add: compactScan_Some)
    then have ex: "\<exists>x y. fits G x y (pw it) (ph it) \<and> y \<le> 99" by blast
    from scan have "written st (k, it) = \<lparr>px = x, py = y, pw = pw it, ph = ph it\<rparr>"
      using written_Some[of st "(k, it)" x y] grid by simp
    with look have res: "fmlookup (compactLayoutsUtil L V) k =
        Some \<lparr>px = x, py = y, pw = pw it, ph = ph it\<rparr>"
      by simp
    show ?thesis unfolding if_P[OF ex] using res f by simp
  qed
qed

theorem compact_first_fit_witness:
  "layoutItems exampleLayout [''A'', ''B''] =
     [(''A'', \<lparr>px = 0, py = 0, pw = 3, ph = 2\<rparr>)] @ (''B'', \<lparr>px = 5, py = 3, pw = 3, ph = 2\<rparr>) # [] \<and>
   fits (covered (placedSeq (fmempty, {}) [(''A'', \<lparr>px = 0, py = 0, pw = 3, ph = 2\<rparr>)])) 3 0 3 2 \<and>
   px (the (fmlookup (compactLayoutsUtil exampleLayout [''A'', ''B'']) ''B'')) = 3 \<and>
   py (the (fmlookup (compactLayoutsUtil exampleLayout [''A'', ''B'']) ''B'')) = 0 \<and>
   layoutItems overflowLayout [''A'', ''B''] =
     [(''A'', \<lparr>px = 0, py = 0, pw = 12, ph = 100\<rparr>)] @ (''B'', \<lparr>px = 0, py = 100, pw = 1, ph = 1\<rparr>) # [] \<and>
   \<not> (\<exists>x y. fits (covered (placedSeq (fmempty, {}) [(''A'', \<lparr>px = 0, py = 0, pw = 12, ph = 100\<rparr>)])) x y 1 1
            \<and> y \<le> 99) \<and>
   fmlookup (compactLayoutsUtil overflowLayout [''A'', ''B'']) ''B''
     = Some \<lparr>px = 0, py = 2, pw = 1, ph = 1\<rparr>"
proof -
  let ?pre = "[(''A'', \<lparr>px = 0, py = 0, pw = 3, ph = 2\<rparr>)]"
  let ?it = "\<lparr>px = 5, py = 3, pw = 3, ph = 2\<rparr>"
  let ?G = "covered (placedSeq (fmempty, {}) ?pre)"
  have split: "layoutItems exampleLayout [''A'', ''B''] = ?pre @ (''B'', ?it) # []"
    by (simp add: example_items)
  have last: "''B'' \<notin> fst ` set ([] :: (string \<times> placement) list)" by simp
  have some: "fits ?G 3 0 3 2"
    unfolding example_placed by (simp add: fits_rect)
  then have ex: "\<exists>x y. fits ?G x y (pw ?it) (ph ?it) \<and> y \<le> 99"
    by (intro exI[of _ 3] exI[of _ 0]) simp
  from compact_first_fit[OF split last refl] ex
  obtain p where p: "fmlookup (compactLayoutsUtil exampleLayout [''A'', ''B'']) ''B'' = Some p"
      "fits ?G (px p) (py p) 3 2"
      "\<forall>x' y'. fits ?G x' y' 3 2 \<longrightarrow> py p < y' \<or> (py p = y' \<and> px p \<le> x')"
    by auto
  from p(3) some have "py p < 0 \<or> (py p = 0 \<and> px p \<le> 3)" by simp
  moreover from p(2) have "0 \<le> px p \<and> 0 \<le> py p \<and> (3 \<le> px p \<or> 2 \<le> py p)"
    unfolding example_placed by (simp add: fits_rect) arith
  ultimately have "px p = 3 \<and> py p = 0" by arith
  with p(1) have first: "px (the (fmlookup (compactLayoutsUtil exampleLayout [''A'', ''B'']) ''B'')) = 3 \<and>
      py (the (fmlookup (compactLayoutsUtil exampleLayout [''A'', ''B'']) ''B'')) = 0"
    by simp
  let ?pre2 = "[(''A'', \<lparr>px = 0, py = 0, pw = 12, ph = 100\<rparr>)]"
  let ?it2 = "\<lparr>px = 0, py = 100, pw = 1, ph = 1\<rparr>"
  let ?G2 = "covered (placedSeq (fmempty, {}) ?pre2)"
  have split2: "layoutItems overflowLayout [''A'', ''B''] = ?pre2 @ (''B'', ?it2) # []"
    by (simp add: overflow_items)
  have no: "\<not> (\<exists>x y. fits ?G2 x y 1 1 \<and> y \<le> 99)"
    unfolding overflow_placed by (simp add: fits_rect)
  then have no': "\<not> (\<exists>x y. fits ?G2 x y (pw ?it2) (ph ?it2) \<and> y \<le> 99)" by simp
  from compact_first_fit[OF split2 last refl] no'
  have "fmlookup (compactLayoutsUtil overflowLayout [''A'', ''B'']) ''B'' =
      Some \<lparr>px = 0, py = 2 * int (card (fst ` set ?pre2)), pw = pw ?it2, ph = ph ?it2\<rparr>"
    by (simp only: if_False)
  then have second: "fmlookup (compactLayoutsUtil overflowLayout [''A'', ''B'']) ''B''
      = Some \<lparr>px = 0, py = 2, pw = 1, ph = 1\<rparr>"
    by simp
  from split some first split2 no second show ?thesis by simp
qed

text \<open>
  C2, counterexample.  The claim as stated, for every placed widget, fails on \<open>overflowLayout\<close>: B is
  processed after A and is assigned \<open>(0, 2)\<close>, where its footprint intersects that of A,
  although the position \<open>x = 0\<close>, \<open>y = 100\<close> fits.
\<close>

theorem compact_first_fit_counterexample:
  "layoutItems overflowLayout [''A'', ''B''] =
     [(''A'', \<lparr>px = 0, py = 0, pw = 12, ph = 100\<rparr>)] @ (''B'', \<lparr>px = 0, py = 100, pw = 1, ph = 1\<rparr>) # [] \<and>
   fmlookup (compactLayoutsUtil overflowLayout [''A'', ''B'']) ''B''
     = Some \<lparr>px = 0, py = 2, pw = 1, ph = 1\<rparr> \<and>
   \<not> fits (covered (placedSeq (fmempty, {}) [(''A'', \<lparr>px = 0, py = 0, pw = 12, ph = 100\<rparr>)])) 0 2 1 1 \<and>
   fits (covered (placedSeq (fmempty, {}) [(''A'', \<lparr>px = 0, py = 0, pw = 12, ph = 100\<rparr>)])) 0 100 1 1"
  unfolding overflow_placed by (simp add: overflow_items overflow_result fits_rect)

text \<open>
  C3 (as amended).  Compacting the result of \<open>compactLayoutsUtil\<close> again, with the same
  visible keys, gives the same layout whenever the compacted positions sort the
  retained widgets into the order in which they were processed the first time.
  That is so, for one, when the visible keys are distinct and the retained widgets all
  have the same size, with enough rows for them (\<open>compact_idempotent_uniform\<close>).
\<close>

theorem compact_idempotent_same_order:
  assumes "map fst (layoutItems (compactLayoutsUtil L V) V) = map fst (layoutItems L V)"
  shows "compactLayoutsUtil (compactLayoutsUtil L V) V = compactLayoutsUtil L V"
  using assms by (rule idempotent_if_same_order)

theorem compact_idempotent_same_order_witness:
  "map fst (layoutItems (compactLayoutsUtil exampleLayout [''A'', ''B'']) [''A'', ''B''])
     = map fst (layoutItems exampleLayout [''A'', ''B'']) \<and>
   compactLayoutsUtil (compactLayoutsUtil exampleLayout [''A'', ''B'']) [''A'', ''B'']
     = compactLayoutsUtil exampleLayout [''A'', ''B'']"
proof -
  have order: "map fst (layoutItems (compactLayoutsUtil exampleLayout [''A'', ''B'']) [''A'', ''B''])
     = map fst (layoutItems exampleLayout [''A'', ''B''])"
    by (simp add: example_result example_items) (simp add: layoutItems_def)
  from compact_idempotent_same_order[OF order] order show ?thesis by simp
qed

text \<open>
  C3, counterexample.  Idempotence for all inputs fails on \<open>reorderLayout\<close>.  The first run processes A, E,
  Q and gives A \<open>(0, 0)\<close>, E \<open>(0, 1)\<close>, Q \<open>(8, 0)\<close> as \<open>(x, y)\<close>; the second run
  processes A, Q, E and gives Q \<open>(6, 0)\<close> and E \<open>(0, 2)\<close>.
\<close>

theorem compact_not_idempotent_counterexample:
  "compactLayoutsUtil (compactLayoutsUtil reorderLayout [''A'', ''E'', ''Q'']) [''A'', ''E'', ''Q'']
     \<noteq> compactLayoutsUtil reorderLayout [''A'', ''E'', ''Q'']"
proof
  assume "compactLayoutsUtil (compactLayoutsUtil reorderLayout [''A'', ''E'', ''Q'']) [''A'', ''E'', ''Q'']
     = compactLayoutsUtil reorderLayout [''A'', ''E'', ''Q'']"
  then have "fmlookup (compactLayoutsUtil (compactLayoutsUtil reorderLayout [''A'', ''E'', ''Q'']) [''A'', ''E'', ''Q'']) ''Q''
     = fmlookup (compactLayoutsUtil reorderLayout [''A'', ''E'', ''Q'']) ''Q''"
    by simp
  then show False unfolding reorder_result2 unfolding reorder_result by simp
qed

text \<open>
  C4.  The keys of the layout \<open>compactLayoutsUtil\<close> returns are exactly the identifiers
  that occur both in \<open>visibleKeys\<close> and in the input layout.  The result is a map, so
  each of them occurs once; an identifier outside \<open>visibleKeys\<close>, or without an input
  placement, does not occur.
\<close>

theorem compact_domain:
  "fmdom' (compactLayoutsUtil L V) = set V \<inter> fmdom' L \<and>
   (k \<in> fmdom' (compactLayoutsUtil L V) \<longleftrightarrow> k \<in> set V \<and> k \<in> fmdom' L)"
  by (simp add: compactLayoutsUtil_def foldl_place_dom items_keys)

theorem compact_domain_witness:
  "fmdom' (compactLayoutsUtil exampleLayout [''B'', ''C'']) = {''B''} \<and>
   ''A'' \<notin> fmdom' (compactLayoutsUtil exampleLayout [''B'', ''C'']) \<and>
   ''C'' \<notin> fmdom' (compactLayoutsUtil exampleLayout [''B'', ''C''])"
  using compact_domain[of exampleLayout "[''B'', ''C'']" "''A''"]
  by (auto simp: exampleLayout_def)

text \<open>
  C5.  If every placement of the input layout satisfies the data-model precondition
  (\<open>x, y \<ge> 0\<close>, \<open>w, h \<ge> 1\<close>, \<open>x + w \<le> 12\<close>), every placement of the output
  satisfies \<open>0 \<le> x\<close>, \<open>x + w \<le> 12\<close> and \<open>y \<ge> 0\<close>.
\<close>

theorem compact_contained:
  assumes valid: "\<forall>k q. fmlookup L k = Some q \<longrightarrow> validPlacement q"
      and look: "fmlookup (compactLayoutsUtil L V) k = Some p"
  shows "0 \<le> px p \<and> px p + pw p \<le> 12 \<and> 0 \<le> py p"
proof -
  let ?P = "\<lambda>(k::'a) p. 0 \<le> px p \<and> px p + pw p \<le> 12 \<and> 0 \<le> py p"
  show ?thesis
  proof (rule foldl_place_inv[where P = ?P and st = "(fmempty, {})" and items = "layoutItems L V" and k = k])
    show "\<And>k p. fmlookup (fst (fmempty, {})) k = Some p \<Longrightarrow> ?P k p" by simp
    show "?P (fst item) (written s item)" if "item \<in> set (layoutItems L V)" for s item
    proof -
      from that have "fmlookup L (fst item) = Some (snd item)" by (rule items_lookup)
      with valid have "validPlacement (snd item)" by blast
      then have "pw (snd item) \<le> 12" by (simp add: validPlacement_def)
      from written_bounds[OF this, of s] show ?thesis by simp
    qed
    show "fmlookup (fst (foldl place (fmempty, {}) (layoutItems L V))) k = Some p"
      using look by (simp add: compactLayoutsUtil_def)
  qed
qed

theorem compact_contained_witness:
  "0 \<le> px (the (fmlookup (compactLayoutsUtil exampleLayout [''A'', ''B'']) ''B'')) \<and>
   px (the (fmlookup (compactLayoutsUtil exampleLayout [''A'', ''B'']) ''B'')) +
     pw (the (fmlookup (compactLayoutsUtil exampleLayout [''A'', ''B'']) ''B'')) \<le> 12 \<and>
   0 \<le> py (the (fmlookup (compactLayoutsUtil exampleLayout [''A'', ''B'']) ''B''))"
proof -
  have valid: "\<forall>k q. fmlookup exampleLayout k = Some q \<longrightarrow> validPlacement q"
    by (auto simp: exampleLayout_def validPlacement_def split: if_splits)
  have look: "fmlookup (compactLayoutsUtil exampleLayout [''A'', ''B'']) ''B''
     = Some (the (fmlookup (compactLayoutsUtil exampleLayout [''A'', ''B'']) ''B''))"
    by (simp add: example_result)
  from compact_contained[OF valid look] show ?thesis .
qed

text \<open>
  C6 (as amended).  \<open>findNextGridPosition\<close> is a total function: it returns a position
  for every layout, width and height.  If some position in rows 0 to 99 fits the
  requested footprint (within the 12 columns, \<open>x, y \<ge> 0\<close>, no cell of the layout's
  occupancy), the result is the first such position in top-to-bottom, left-to-right
  order, that is the least one in \<open>(y, x)\<close> order; if none fits, the result is
  \<open>x = 0\<close>, \<open>y = 2 * (number of entries of the layout)\<close>.  The converse is left out:
  that value can also be the first position that fits.
\<close>

theorem findNextGridPosition_first_fit:
  "((\<exists>x' y'. fits (occupancy L) x' y' w h \<and> y' \<le> 99) \<longrightarrow>
      fits (occupancy L) (fst (findNextGridPosition L w h)) (snd (findNextGridPosition L w h)) w h \<and>
      snd (findNextGridPosition L w h) \<le> 99 \<and>
      (\<forall>x' y'. fits (occupancy L) x' y' w h \<longrightarrow>
          snd (findNextGridPosition L w h) < y' \<or>
          (snd (findNextGridPosition L w h) = y' \<and> fst (findNextGridPosition L w h) \<le> x'))) \<and>
   (\<not> (\<exists>x' y'. fits (occupancy L) x' y' w h \<and> y' \<le> 99) \<longrightarrow>
      findNextGridPosition L w h = (0, 2 * int (fcard (fmdom L))))"
  by (rule findNext_first_fit)

theorem findNextGridPosition_first_fit_witness:
  "fits (occupancy fullRowLayout) 0 2 3 2 \<and>
   findNextGridPosition fullRowLayout 3 2 = (0, 2) \<and>
   \<not> (\<exists>x' y'. fits (occupancy fullGridLayout) x' y' 1 1 \<and> y' \<le> 99) \<and>
   findNextGridPosition fullGridLayout 1 1 = (0, 2)"
proof -
  let ?r = "findNextGridPosition fullRowLayout 3 2"
  have f: "fits (occupancy fullRowLayout) 0 2 3 2"
    unfolding fullRow_occupancy by (simp add: fits_rect)
  then have ex: "\<exists>x' y'. fits (occupancy fullRowLayout) x' y' 3 2 \<and> y' \<le> 99"
    by (intro exI[of _ 0] exI[of _ 2]) simp
  from findNextGridPosition_first_fit[of fullRowLayout 3 2] ex
  have a: "fits (occupancy fullRowLayout) (fst ?r) (snd ?r) 3 2"
    and b: "\<forall>x' y'. fits (occupancy fullRowLayout) x' y' 3 2 \<longrightarrow>
          snd ?r < y' \<or> (snd ?r = y' \<and> fst ?r \<le> x')"
    by blast+
  from b f have "snd ?r < 2 \<or> (snd ?r = 2 \<and> fst ?r \<le> 0)" by blast
  moreover from a have "0 \<le> fst ?r \<and> 2 \<le> snd ?r"
    unfolding fullRow_occupancy by (simp add: fits_rect) arith
  ultimately have "fst ?r = 0 \<and> snd ?r = 2" by arith
  then have r: "?r = (0, 2)" by (simp add: prod_eq_iff)
  have n: "\<not> (\<exists>x' y'. fits (occupancy fullGridLayout) x' y' 1 1 \<and> y' \<le> 99)"
    unfolding fullGrid_occupancy by (simp add: fits_rect)
  with findNextGridPosition_first_fit[of fullGridLayout 1 1]
  have "findNextGridPosition fullGridLayout 1 1 = (0, 2 * int (fcard (fmdom fullGridLayout)))"
    by blast
  then have "findNextGridPosition fullGridLayout 1 1 = (0, 2)"
    by (simp add: fullGridLayout_def fcard_finsert_if fcard_fempty)
  with f r n show ?thesis by simp
qed

text \<open>
  C6, counterexample.  The claim as stated, with the fallback value returned exactly when
  no position in rows 0 to 99 fits, fails on \<open>fullRowLayout\<close>: for a widget 3 wide and
  2 high the position \<open>x = 0\<close>, \<open>y = 2\<close> fits and is returned, and it is also
  \<open>(0, 2 * 1)\<close>, the fallback value of this one-entry layout.
\<close>

theorem findNextGridPosition_fallback_value_counterexample:
  "findNextGridPosition fullRowLayout 3 2 = (0, 2 * int (fcard (fmdom fullRowLayout))) \<and>
   fits (occupancy fullRowLayout) 0 2 3 2 \<and> (2::int) \<le> 99"
proof -
  have "int (fcard (fmdom fullRowLayout)) = 1"
    by (simp add: fullRowLayout_def fcard_finsert_if fcard_fempty)
  then show ?thesis
    using fullRow_result fullRow_fits by simp
qed

text \<open>
  C7.  The loader never raises.  Provided \<^verbatim>\<open>JSON.parse\<close> rejects the empty text (which it
  does), \<open>parseWidgetLayouts\<close> returns, for every stored value, the layout the spec
  describes: a stored object itself; for a stored string the parsed value when parsing
  succeeds with a non-null object; the empty layout in every other case (no row, no
  value, a parse failure, a parsed value that is not an object).
\<close>

theorem parseWidgetLayouts_total:
  assumes empty: "JSON_parse [] = Inl e"
  shows "parseWidgetLayouts JSON_parse dashboardPrefs = Inr (loadedLayout JSON_parse dashboardPrefs)"
proof (cases dashboardPrefs)
  case None
  then show ?thesis by (simp add: parseWidgetLayouts_def loadedLayout_def)
next
  case (Some prefs)
  show ?thesis
  proof (cases "layout_view prefs")
    case JNull
    with Some show ?thesis
      by (simp add: parseWidgetLayouts_def loadedLayout_def falsy_def isObject_def)
  next
    case (JBool b)
    with Some show ?thesis
      by (simp add: parseWidgetLayouts_def loadedLayout_def falsy_def typeof_def isObject_def)
  next
    case (JNumber n)
    with Some show ?thesis
      by (simp add: parseWidgetLayouts_def loadedLayout_def falsy_def typeof_def isObject_def)
  next
    case (JString s)
    show ?thesis
    proof (cases "s = []")
      case True
      with Some JString empty show ?thesis
        by (simp add: parseWidgetLayouts_def loadedLayout_def falsy_def isObject_def)
    next
      case False
      show ?thesis
      proof (cases "JSON_parse s")
        case (Inl err)
        with Some JString False show ?thesis
          by (simp add: parseWidgetLayouts_def loadedLayout_def falsy_def typeof_def isObject_def)
      next
        case (Inr parsed)
        have "isObject parsed \<longleftrightarrow> typeof parsed = ''object'' \<and> parsed \<noteq> JNull"
          by (rule isObject_typeof)
        with Some JString False Inr show ?thesis
          by (simp add: parseWidgetLayouts_def loadedLayout_def falsy_def
              typeof_def[of "JString s"] isObject_def[of "JString s"])
      qed
    qed
  next
    case (JArray vs)
    with Some show ?thesis
      by (simp add: parseWidgetLayouts_def loadedLayout_def falsy_def typeof_def isObject_def)
  next
    case (JObject kvs)
    with Some show ?thesis
      by (simp add: parseWidgetLayouts_def loadedLayout_def falsy_def typeof_def isObject_def)
  qed
qed

theorem parseWidgetLayouts_total_witness:
  "demoParse [] = Inl SyntaxError \<and>
   parseWidgetLayouts demoParse None = Inr (JObject []) \<and>
   parseWidgetLayouts demoParse (Some \<lparr>layout_view = JObject [(''A'', JNull)]\<rparr>)
     = Inr (JObject [(''A'', JNull)]) \<and>
   parseWidgetLayouts demoParse (Some \<lparr>layout_view = JString ''[1]''\<rparr>) = Inr (JArray [JNumber 1]) \<and>
   parseWidgetLayouts demoParse (Some \<lparr>layout_view = JString ''7''\<rparr>) = Inr (JObject []) \<and>
   parseWidgetLayouts demoParse (Some \<lparr>layout_view = JString ''{''\<rparr>) = Inr (JObject [])"
proof -
  have e: "demoParse [] = Inl SyntaxError" by (simp add: demoParse_def)
  show ?thesis
    using e parseWidgetLayouts_total[where JSON_parse = demoParse and dashboardPrefs = None, OF e]
      parseWidgetLayouts_total[where JSON_parse = demoParse and dashboardPrefs = "Some \<lparr>layout_view = JObject [(''A'', JNull)]\<rparr>", OF e]
      parseWidgetLayouts_total[where JSON_parse = demoParse and dashboardPrefs = "Some \<lparr>layout_view = JString ''[1]''\<rparr>", OF e]
      parseWidgetLayouts_total[where JSON_parse = demoParse and dashboardPrefs = "Some \<lparr>layout_view = JString ''7''\<rparr>", OF e]
      parseWidgetLayouts_total[where JSON_parse = demoParse and dashboardPrefs = "Some \<lparr>layout_view = JString ''{''\<rparr>", OF e]
    by (simp add: loadedLayout_def isObject_def demoParse_def)
qed

text \<open>
  C8.  \<open>compactLayoutsUtil\<close> changes positions only: a widget of the output has the width
  and the height it has in the input layout.
\<close>

theorem compact_keeps_size:
  assumes "fmlookup (compactLayoutsUtil L V) k = Some p"
  shows "\<exists>q. fmlookup L k = Some q \<and> pw p = pw q \<and> ph p = ph q"
  using assms by (rule compact_sizes)

theorem compact_keeps_size_witness:
  "fmlookup (compactLayoutsUtil exampleLayout [''A'', ''B'']) ''B''
     = Some \<lparr>px = 3, py = 0, pw = 3, ph = 2\<rparr> \<and>
   (\<exists>q. fmlookup exampleLayout ''B'' = Some q \<and> pw q = 3 \<and> ph q = 2)"
proof -
  have look: "fmlookup (compactLayoutsUtil exampleLayout [''A'', ''B'']) ''B''
     = Some \<lparr>px = 3, py = 0, pw = 3, ph = 2\<rparr>"
    by (simp add: example_result)
  from compact_keeps_size[OF look] look show ?thesis by simp
qed

text \<open>
  C9.  On the layout \<^verbatim>\<open>{A: {x:0, y:0, w:3, h:2}, B: {x:5, y:3, w:3, h:2}}\<close> with the
  visible sequence \<^verbatim>\<open>[A, B]\<close>, \<open>compactLayoutsUtil\<close> returns the layout that places
  A at \<open>(0, 0)\<close> and B at \<open>(3, 0)\<close>, both 3 wide and 2 high.
\<close>

theorem compact_example:
  "compactLayoutsUtil exampleLayout [''A'', ''B''] =
     fmupd ''B'' \<lparr>px = 3, py = 0, pw = 3, ph = 2\<rparr>
       (fmupd ''A'' \<lparr>px = 0, py = 0, pw = 3, ph = 2\<rparr> fmempty)"
  by (rule example_result)

text \<open>
  C10.  On the empty layout \<open>findNextGridPosition\<close> returns \<open>x = 0\<close>, \<open>y = 0\<close> for every
  requested width and height: up to width 12 the scan accepts the origin, and for a
  wider request no column is tried and the fallback row is \<open>2 * 0\<close>.
\<close>

theorem findNextGridPosition_empty:
  "findNextGridPosition fmempty w h = (0, 0)"
proof -
  have ok: "\<And>x y. 0 \<le> x \<Longrightarrow> x + w \<le> 12 \<Longrightarrow>
      (\<forall>dy \<in> {0..<h}. \<forall>dx \<in> {0..<w}. (y + dy, x + dx) \<notin> ({}::grid)) = (rect x y w h \<inter> {} = {})"
    by simp
  show ?thesis
  proof (cases "w \<le> 12")
    case True
    then have "fits {} 0 0 w h \<and> (0::int) \<le> 99 \<and>
        (\<forall>x' y'. fits {} x' y' w h \<longrightarrow> 0 < y' \<or> (0 = y' \<and> 0 \<le> x'))"
      by (auto simp: fits_empty)
    then have "scanRows (\<lambda>x y. \<forall>dy \<in> {0..<h}. \<forall>dx \<in> {0..<w}. (y + dy, x + dx) \<notin> ({}::grid)) (12 - w) 0
        = Some (0, 0)"
      using scan_fits_Some[OF ok, of 0 0] by simp
    then show ?thesis by (simp add: findNextGridPosition_def fmran'_empty COLS_def)
  next
    case False
    then have "\<not> (\<exists>x y. fits {} x y w h \<and> y \<le> 99)" by (auto simp: fits_empty)
    then have "scanRows (\<lambda>x y. \<forall>dy \<in> {0..<h}. \<forall>dx \<in> {0..<w}. (y + dy, x + dx) \<notin> ({}::grid)) (12 - w) 0
        = None"
      using scan_fits_None[OF ok] by simp
    then show ?thesis by (simp add: findNextGridPosition_def fmran'_empty COLS_def)
  qed
qed

theorem findNextGridPosition_empty_witness:
  "findNextGridPosition (fmempty :: string WidgetLayoutConfig) 3 2 = (0, 0) \<and>
   findNextGridPosition (fmempty :: string WidgetLayoutConfig) 13 2 = (0, 0)"
  using findNextGridPosition_empty[of 3 2] findNextGridPosition_empty[of 13 2] by simp

end
